theory Spec2Isabelle
  imports Complex_Main
begin

section \<open>Abacus screen: the bead drag handler\<close>

text \<open>
  Source: \<^verbatim>\<open>src/app/(tabs)/abacus.tsx\<close>. The bead positions of one rod
  (\<^verbatim>\<open>rod.beads[k].sharedX.value\<close>) are a list of numbers, updated by index. The
  window width read from \<^verbatim>\<open>Dimensions.get('window').width\<close> is an input of the
  program, so the two module constants the handler reads (\<^verbatim>\<open>availableWidth\<close>,
  \<^verbatim>\<open>beadWidth\<close>) are kept in a record; \<open>screenDims\<close> computes them as lines 20-29
  do.

  The handler is modelled twice. In this section every sum and difference is exact: the
  model \<open>walk\<close> serves the claims about which beads the loop visits and which formula
  it stores, which do not depend on rounding. The next section repeats the same loop in
  double precision (\<open>walk64\<close>), for the claims about the values that end up stored.
\<close>

record dims =
  availableWidth :: real
  beadWidth :: real

definition NUM_RODS :: nat where
  "NUM_RODS = 6"

definition BEADS_PER_ROD :: nat where
  "BEADS_PER_ROD = 10"

definition rodHeight :: real where
  "rodHeight = 4"

definition abacusWidth :: "real \<Rightarrow> real" where
  "abacusWidth windowWidth = min (windowWidth - 32) 1000"

definition screenDims :: "real \<Rightarrow> dims" where
  "screenDims windowWidth =
     (let aw = abacusWidth windowWidth - 48
      in \<lparr>availableWidth = aw,
          beadWidth = min (rodHeight * 10) (aw / (real BEADS_PER_ROD * 1.5))\<rparr>)"

definition beadSpacing :: real where
  "beadSpacing = 2"

definition beadUnit :: "dims \<Rightarrow> real" where
  "beadUnit D = beadWidth D + beadSpacing"

text \<open>Lines 37-43 and \<^verbatim>\<open>resetAbacus\<close>: bead \<open>beadIndex\<close> starts at \<open>beadIndex * beadUnit\<close>.\<close>

definition initialPositions :: "dims \<Rightarrow> real list" where
  "initialPositions D = map (\<lambda>beadIndex. real beadIndex * beadUnit D) [0..<BEADS_PER_ROD]"

text \<open>Line 147; \<open>dx = 0\<close> gives direction \<open>-1\<close>.\<close>

definition direction :: "real \<Rightarrow> int" where
  "direction dx = (if dx > 0 then 1 else -1)"

definition minX :: real where
  "minX = 0"

definition maxX :: "dims \<Rightarrow> real" where
  "maxX D = availableWidth D - beadWidth D"

text \<open>Line 161.\<close>

definition hasNext :: "real list \<Rightarrow> int \<Rightarrow> bool" where
  "hasNext rodBeads nextIndex = (nextIndex \<ge> 0 \<and> nextIndex < int (length rodBeads))"

text \<open>Lines 167-169, the boolean \<^verbatim>\<open>spacing\<close>: the proposed position would overlap the next bead.\<close>

definition spacing :: "dims \<Rightarrow> real \<Rightarrow> real \<Rightarrow> real \<Rightarrow> bool" where
  "spacing D dx proposedX nextX =
     (if direction dx > 0 then proposedX + beadUnit D > nextX
      else proposedX < nextX + beadUnit D)"

text \<open>Lines 182-184.\<close>

definition overlapResolved :: "dims \<Rightarrow> real \<Rightarrow> real \<Rightarrow> bool" where
  "overlapResolved D dx proposedX =
     (if direction dx > 0 then proposedX + beadUnit D \<ge> maxX D else proposedX \<le> minX)"

text \<open>
  The \<^verbatim>\<open>while\<close> loop of \<^verbatim>\<open>onUpdate\<close> (lines 154-189), one recursive call per
  iteration. \<open>direction dx\<close> is the loop-invariant \<^verbatim>\<open>direction\<close> of line 147. The
  argument \<open>visited\<close> is a ghost variable: it records, in order, the indices at which
  the loop body ran, and takes no part in the computation of the positions.
\<close>

function walk :: "dims \<Rightarrow> real \<Rightarrow> int \<Rightarrow> int list \<Rightarrow> real list \<Rightarrow> int list \<times> real list" where
  "walk D dx index visited rodBeads =
     (if index \<ge> 0 \<and> index < int (length rodBeads) then
        (let nextIndex = index + direction dx;
             proposedX = rodBeads ! nat index + dx;
             proposedX = max minX (min proposedX (maxX D));
             proposedX =
               (if hasNext rodBeads nextIndex then
                  (let nextX = rodBeads ! nat nextIndex
                   in if spacing D dx proposedX nextX
                      then (if direction dx > 0 then nextX - beadUnit D else nextX + beadUnit D)
                      else proposedX)
                else proposedX);
             rodBeads' = rodBeads[nat index := proposedX];
             visited' = visited @ [index]
         in if \<not> hasNext rodBeads nextIndex then (visited', rodBeads')
            else if overlapResolved D dx proposedX then (visited', rodBeads')
            else walk D dx nextIndex visited' rodBeads')
      else (visited, rodBeads))"
  by pat_completeness auto
termination
  apply (relation "measure (\<lambda>(D, dx, index, visited, rodBeads).
           if dx > 0 then nat (int (length rodBeads) - index) else nat (index + 1))")
   apply (auto simp: direction_def hasNext_def)
  done

declare walk.simps [simp del]

text \<open>
  One drag update of the bead \<open>thisIndex\<close> of a rod by the delta \<open>dx\<close>
  (\<^verbatim>\<open>e.translationX - lastTranslationX.value\<close>): the positions afterwards, and the
  indices the loop visited.
\<close>

definition onUpdate :: "dims \<Rightarrow> real list \<Rightarrow> nat \<Rightarrow> real \<Rightarrow> real list" where
  "onUpdate D rodBeads thisIndex dx = snd (walk D dx (int thisIndex) [] rodBeads)"

definition visitedBy :: "dims \<Rightarrow> real list \<Rightarrow> nat \<Rightarrow> real \<Rightarrow> int list" where
  "visitedBy D rodBeads thisIndex dx = fst (walk D dx (int thisIndex) [] rodBeads)"

text \<open>
  The value stored at line 178 by the iteration at \<open>index\<close>, as a function of the
  positions on entry to that iteration (lines 158-176).
\<close>

definition commitX :: "dims \<Rightarrow> real \<Rightarrow> real list \<Rightarrow> int \<Rightarrow> real" where
  "commitX D dx rodBeads index =
     (let nextIndex = index + direction dx;
          proposedX = max minX (min (rodBeads ! nat index + dx) (maxX D))
      in if hasNext rodBeads nextIndex \<and> spacing D dx proposedX (rodBeads ! nat nextIndex)
         then (if direction dx > 0 then rodBeads ! nat nextIndex - beadUnit D
               else rodBeads ! nat nextIndex + beadUnit D)
         else proposedX)"

text \<open>The iteration at \<open>index\<close> is the last one (lines 180 and 186).\<close>

definition stopsAt :: "dims \<Rightarrow> real \<Rightarrow> real list \<Rightarrow> int \<Rightarrow> bool" where
  "stopsAt D dx rodBeads index =
     (\<not> hasNext rodBeads (index + direction dx)
      \<or> overlapResolved D dx (commitX D dx rodBeads index))"

text \<open>
  The two invariants of the data model: adjacent beads do not overlap
  (\<open>position[i] + beadWidth + spacing \<le> position[i+1]\<close>), and every bead lies on the
  track (\<open>0 \<le> position \<le> availableWidth - beadWidth\<close>).
\<close>

fun nonOverlap :: "dims \<Rightarrow> real list \<Rightarrow> bool" where
  "nonOverlap D (x # y # xs) = (x + beadWidth D + beadSpacing \<le> y \<and> nonOverlap D (y # xs))"
| "nonOverlap D xs = True"


section \<open>Abacus screen: the drag handler in double precision\<close>

text \<open>
  JavaScript numbers are IEEE 754 binary64 values. A finite double is a real number
  \<open>m * 2^(e - 52)\<close> with an integer \<open>m\<close>, \<open>\<bar>m\<bar> < 2^53\<close>, and \<open>e \<ge> -1022\<close>; every
  arithmetic operation returns the exact result rounded to the nearest double, a tie
  going to the even significand. \<open>findExp x 0\<close> finds the exponent \<open>e\<close> of a positive
  \<open>x\<close> (\<open>2^e \<le> x < 2^(e+1)\<close>, or \<open>e = -1022\<close> for a subnormal \<open>x\<close>), \<open>roundEven\<close>
  rounds the scaled significand, and \<open>rnd64\<close> is the rounding of a real to a double.
  Infinity and NaN are not modelled: \<open>rnd64\<close> is not bounded above. With a finite
  delta and a layout that fits a screen, the only sum of the handler that can exceed the
  largest double is \<^verbatim>\<open>current.sharedX.value + dx\<close>, which line 159 clamps at once, to
  the same bound for Infinity as for a large real.
\<close>

function findExp :: "real \<Rightarrow> int \<Rightarrow> int" where
  "findExp x e =
     (if 2 powi (e + 1) \<le> x then findExp x (e + 1)
      else if x < 2 powi e \<and> - 1022 < e then findExp x (e - 1)
      else e)"
  by pat_completeness auto
termination
proof (relation "measure (\<lambda>(x, e).
         (if 2 powi (e + 1) \<le> x then 2 * nat (\<lfloor>log 2 x\<rfloor> - e) else 0) + nat (e + 1022))",
       goal_cases)
  case 1
  show ?case by simp
next
  case (2 x e)
  define k where "k = e + 1"
  have kx: "2 powi k \<le> x" using 2 by (simp add: k_def)
  have x: "0 < x" using kx zero_less_power_int [of "2::real" k] by linarith
  have "2 powr (of_int k) \<le> x" using kx by (simp add: powr_real_of_int')
  then have "of_int k \<le> log 2 x" using x by (simp add: le_log_iff)
  then have "k \<le> \<lfloor>log 2 x\<rfloor>" by (simp add: le_floor_iff)
  then have "e + 1 \<le> \<lfloor>log 2 x\<rfloor>" by (simp add: k_def)
  with 2 show ?case by auto
next
  case (3 x e)
  then have "\<not> 2 powi (e - 1 + 1) \<le> x" by simp
  with 3 show ?case by auto
qed

declare findExp.simps [simp del]

definition roundEven :: "real \<Rightarrow> int" where
  "roundEven q =
     (let f = \<lfloor>q\<rfloor>; r = q - of_int f
      in if r < 1 / 2 then f
         else if 1 / 2 < r then f + 1
         else if even f then f else f + 1)"

definition rnd64 :: "real \<Rightarrow> real" where
  "rnd64 x =
     (if x = 0 then 0
      else
        (let e = findExp \<bar>x\<bar> 0;
             u = 2 powi (e - 52)
         in sgn x * of_int (roundEven (\<bar>x\<bar> / u)) * u))"

text \<open>A real number that is a double: rounding leaves it as it is.\<close>

definition isDouble :: "real \<Rightarrow> bool" where
  "isDouble x = (rnd64 x = x)"

text \<open>The four arithmetic operations of the language.\<close>

definition fadd :: "real \<Rightarrow> real \<Rightarrow> real" where
  "fadd x y = rnd64 (x + y)"

definition fsub :: "real \<Rightarrow> real \<Rightarrow> real" where
  "fsub x y = rnd64 (x - y)"

definition fmul :: "real \<Rightarrow> real \<Rightarrow> real" where
  "fmul x y = rnd64 (x * y)"

definition fdiv :: "real \<Rightarrow> real \<Rightarrow> real" where
  "fdiv x y = rnd64 (x / y)"

text \<open>Lines 20-29, 37-43 and 149-150 with the arithmetic of the language.\<close>

definition screenDims64 :: "real \<Rightarrow> dims" where
  "screenDims64 windowWidth =
     (let abacusWidth = min (fsub windowWidth 32) 1000;
          aw = fsub abacusWidth 48
      in \<lparr>availableWidth = aw,
          beadWidth = min (fmul rodHeight 10) (fdiv aw (fmul (real BEADS_PER_ROD) 1.5))\<rparr>)"

definition beadUnit64 :: "dims \<Rightarrow> real" where
  "beadUnit64 D = fadd (beadWidth D) beadSpacing"

definition initialPositions64 :: "dims \<Rightarrow> real list" where
  "initialPositions64 D =
     map (\<lambda>beadIndex. fmul (real beadIndex) (beadUnit64 D)) [0..<BEADS_PER_ROD]"

definition maxX64 :: "dims \<Rightarrow> real" where
  "maxX64 D = fsub (availableWidth D) (beadWidth D)"

text \<open>Lines 167-169 and 182-184.\<close>

definition spacing64 :: "dims \<Rightarrow> real \<Rightarrow> real \<Rightarrow> real \<Rightarrow> bool" where
  "spacing64 D dx proposedX nextX =
     (if direction dx > 0 then fadd proposedX (beadUnit64 D) > nextX
      else proposedX < fadd nextX (beadUnit64 D))"

definition overlapResolved64 :: "dims \<Rightarrow> real \<Rightarrow> real \<Rightarrow> bool" where
  "overlapResolved64 D dx proposedX =
     (if direction dx > 0 then fadd proposedX (beadUnit64 D) \<ge> maxX64 D
      else proposedX \<le> minX)"

text \<open>
  The loop of lines 154-189 once more, now with each \<^verbatim>\<open>+\<close> and \<^verbatim>\<open>-\<close> of the source
  rounded. \<open>visited\<close> is the same ghost variable as in \<open>walk\<close>.
\<close>

function walk64 :: "dims \<Rightarrow> real \<Rightarrow> int \<Rightarrow> int list \<Rightarrow> real list \<Rightarrow> int list \<times> real list" where
  "walk64 D dx index visited rodBeads =
     (if index \<ge> 0 \<and> index < int (length rodBeads) then
        (let nextIndex = index + direction dx;
             proposedX = fadd (rodBeads ! nat index) dx;
             proposedX = max minX (min proposedX (maxX64 D));
             proposedX =
               (if hasNext rodBeads nextIndex then
                  (let nextX = rodBeads ! nat nextIndex
                   in if spacing64 D dx proposedX nextX
                      then (if direction dx > 0 then fsub nextX (beadUnit64 D)
                            else fadd nextX (beadUnit64 D))
                      else proposedX)
                else proposedX);
             rodBeads' = rodBeads[nat index := proposedX];
             visited' = visited @ [index]
         in if \<not> hasNext rodBeads nextIndex then (visited', rodBeads')
            else if overlapResolved64 D dx proposedX then (visited', rodBeads')
            else walk64 D dx nextIndex visited' rodBeads')
      else (visited, rodBeads))"
  by pat_completeness auto
termination
  apply (relation "measure (\<lambda>(D, dx, index, visited, rodBeads).
           if dx > 0 then nat (int (length rodBeads) - index) else nat (index + 1))")
   apply (auto simp: direction_def hasNext_def)
  done

declare walk64.simps [simp del]

definition onUpdate64 :: "dims \<Rightarrow> real list \<Rightarrow> nat \<Rightarrow> real \<Rightarrow> real list" where
  "onUpdate64 D rodBeads thisIndex dx = snd (walk64 D dx (int thisIndex) [] rodBeads)"

definition visitedBy64 :: "dims \<Rightarrow> real list \<Rightarrow> nat \<Rightarrow> real \<Rightarrow> int list" where
  "visitedBy64 D rodBeads thisIndex dx = fst (walk64 D dx (int thisIndex) [] rodBeads)"

text \<open>The value stored at line 178, and the two break tests, as for the exact model.\<close>

definition commitX64 :: "dims \<Rightarrow> real \<Rightarrow> real list \<Rightarrow> int \<Rightarrow> real" where
  "commitX64 D dx rodBeads index =
     (let nextIndex = index + direction dx;
          proposedX = max minX (min (fadd (rodBeads ! nat index) dx) (maxX64 D))
      in if hasNext rodBeads nextIndex \<and> spacing64 D dx proposedX (rodBeads ! nat nextIndex)
         then (if direction dx > 0 then fsub (rodBeads ! nat nextIndex) (beadUnit64 D)
               else fadd (rodBeads ! nat nextIndex) (beadUnit64 D))
         else proposedX)"

definition stopsAt64 :: "dims \<Rightarrow> real \<Rightarrow> real list \<Rightarrow> int \<Rightarrow> bool" where
  "stopsAt64 D dx rodBeads index =
     (\<not> hasNext rodBeads (index + direction dx)
      \<or> overlapResolved64 D dx (commitX64 D dx rodBeads index))"

text \<open>
  The non-overlap invariant on doubles, in three readings. \<open>nonOverlap\<close> above is the
  inequality \<open>position[i] + beadWidth + spacing \<le> position[i+1]\<close> between real numbers.
  \<open>nonOverlapAsWritten\<close> evaluates the same expression from left to right in double
  precision. \<open>nonOverlap64\<close> is the test the handler itself makes at line 168, with the
  constant \<^verbatim>\<open>beadUnit\<close> of line 29: \<open>position[i] + beadUnit \<le> position[i+1]\<close>, the sum
  rounded. The bounds invariant compares with \<^verbatim>\<open>maxX\<close> as line 150 computes it.
\<close>

fun nonOverlap64 :: "dims \<Rightarrow> real list \<Rightarrow> bool" where
  "nonOverlap64 D (x # y # xs) = (fadd x (beadUnit64 D) \<le> y \<and> nonOverlap64 D (y # xs))"
| "nonOverlap64 D xs = True"

fun nonOverlapAsWritten :: "dims \<Rightarrow> real list \<Rightarrow> bool" where
  "nonOverlapAsWritten D (x # y # xs) =
     (fadd (fadd x (beadWidth D)) beadSpacing \<le> y \<and> nonOverlapAsWritten D (y # xs))"
| "nonOverlapAsWritten D xs = True"

definition inBounds64 :: "dims \<Rightarrow> real list \<Rightarrow> bool" where
  "inBounds64 D xs = list_all (\<lambda>x. 0 \<le> x \<and> x \<le> maxX64 D) xs"


text \<open>
  Layouts and rods used as concrete inputs: the layouts of windows 375, 301, 310 and 380
  wide; the rod as mounted; the rod of the window 301 wide after bead 9, and then bead 8,
  was dragged by +500; and a rod of the window 301 wide whose beads 0 and 1 stand at
  \<open>beadWidth\<close> and \<open>2 * beadWidth + 2\<close>.
\<close>

abbreviation D375 :: dims where "D375 \<equiv> screenDims64 375"
abbreviation D301 :: dims where "D301 \<equiv> screenDims64 301"
abbreviation D310 :: dims where "D310 \<equiv> screenDims64 310"
abbreviation D380 :: dims where "D380 \<equiv> screenDims64 380"

abbreviation rod375 :: "real list" where "rod375 \<equiv> initialPositions64 D375"
abbreviation rod301 :: "real list" where "rod301 \<equiv> initialPositions64 D301"
abbreviation rod301a :: "real list" where "rod301a \<equiv> onUpdate64 D301 rod301 9 500"
abbreviation rod301b :: "real list" where "rod301b \<equiv> onUpdate64 D301 rod301a 8 500"
abbreviation rod310 :: "real list" where "rod310 \<equiv> initialPositions64 D310"
abbreviation rodTie :: "real list" where
  "rodTie \<equiv> [beadWidth D301, 2 * beadWidth D301 + 2, 60, 80, 100, 120, 140, 160, 180, 200]"

section \<open>Tally screen: the score counters\<close>

text \<open>
  Source: the tally screen (\<^verbatim>\<open>src/unnamed/part_002\<close>). The React state is the pair of
  \<^verbatim>\<open>players\<close> and \<^verbatim>\<open>actionHistory\<close>; each handler is a function from the state
  before to the state after. \<^verbatim>\<open>Date.now()\<close> is an argument.
\<close>

record TallyData =
  name :: string
  correct :: int
  tryAgain :: int
  total :: int

datatype ActionType = Correct | TryAgain

record Action =
  playerIndex :: nat
  type :: ActionType
  timestamp :: int

record TallyState =
  players :: "TallyData list"
  actionHistory :: "Action list"

definition initialTallyData :: TallyData where
  "initialTallyData = \<lparr>name = '''', correct = 0, tryAgain = 0, total = 0\<rparr>"

definition initialState :: TallyState where
  "initialState =
     \<lparr>players = [initialTallyData\<lparr>name := ''Player 1''\<rparr>,
                  initialTallyData\<lparr>name := ''Player 2''\<rparr>,
                  initialTallyData\<lparr>name := ''Player 3''\<rparr>,
                  initialTallyData\<lparr>name := ''Player 4''\<rparr>],
      actionHistory = []\<rparr>"

text \<open>\<^verbatim>\<open>current.map((player, i) => ...)\<close>: the callback receives the element and its index.\<close>

definition mapIndexed :: "('a \<Rightarrow> nat \<Rightarrow> 'b) \<Rightarrow> 'a list \<Rightarrow> 'b list" where
  "mapIndexed f xs = map (\<lambda>(i, x). f x i) (enumerate 0 xs)"

definition handleCorrect :: "nat \<Rightarrow> int \<Rightarrow> TallyState \<Rightarrow> TallyState" where
  "handleCorrect index now s =
     s\<lparr>players :=
         mapIndexed (\<lambda>player i.
            if i = index
            then player\<lparr>correct := correct player + 1, total := total player + 1\<rparr>
            else player) (players s),
       actionHistory :=
         actionHistory s @ [\<lparr>playerIndex = index, type = Correct, timestamp = now\<rparr>]\<rparr>"

definition handleTryAgain :: "nat \<Rightarrow> int \<Rightarrow> TallyState \<Rightarrow> TallyState" where
  "handleTryAgain index now s =
     s\<lparr>players :=
         mapIndexed (\<lambda>player i.
            if i = index
            then player\<lparr>tryAgain := tryAgain player + 1, total := total player + 1\<rparr>
            else player) (players s),
       actionHistory :=
         actionHistory s @ [\<lparr>playerIndex = index, type = TryAgain, timestamp = now\<rparr>]\<rparr>"

text \<open>
  \<^verbatim>\<open>[lastAction.type]: player[lastAction.type] - 1\<close> decrements the field the action
  names; \<^verbatim>\<open>current.slice(0, -1)\<close> drops the last entry.
\<close>

definition handleUndo :: "TallyState \<Rightarrow> TallyState" where
  "handleUndo s =
     (if length (actionHistory s) = 0 then s
      else
        (let lastAction = actionHistory s ! (length (actionHistory s) - 1)
         in s\<lparr>players :=
                mapIndexed (\<lambda>player i.
                   if i = playerIndex lastAction
                   then (case type lastAction of
                           Correct \<Rightarrow>
                             player\<lparr>correct := correct player - 1, total := total player - 1\<rparr>
                         | TryAgain \<Rightarrow>
                             player\<lparr>tryAgain := tryAgain player - 1, total := total player - 1\<rparr>)
                   else player) (players s),
              actionHistory := butlast (actionHistory s)\<rparr>))"

definition handleReset :: "TallyState \<Rightarrow> TallyState" where
  "handleReset s =
     s\<lparr>players := map (\<lambda>player. player\<lparr>correct := 0, tryAgain := 0, total := 0\<rparr>) (players s),
       actionHistory := []\<rparr>"

text \<open>The counters of every player add up.\<close>

definition tallyInv :: "TallyState \<Rightarrow> bool" where
  "tallyInv s = list_all (\<lambda>player. total player = correct player + tryAgain player) (players s)"

section \<open>Abacus screen: the loop, one iteration at a time\<close>

lemma walk_unfold:
  "walk D dx index vis ys =
     (if 0 \<le> index \<and> index < int (length ys) then
        (if stopsAt D dx ys index
         then (vis @ [index], ys[nat index := commitX D dx ys index])
         else walk D dx (index + direction dx) (vis @ [index])
                (ys[nat index := commitX D dx ys index]))
      else (vis, ys))"
  by (subst walk.simps) (simp add: Let_def commitX_def stopsAt_def)

lemma walk_induct [case_names step]:
  assumes step: "\<And>index ys.
      (0 \<le> index \<Longrightarrow> index < int (length ys) \<Longrightarrow> \<not> stopsAt D dx ys index \<Longrightarrow>
         Q (index + direction dx) (ys[nat index := commitX D dx ys index]))
      \<Longrightarrow> Q index ys"
  shows "Q index ys"
proof (induction "if dx > 0 then nat (int (length ys) - index) else nat (index + 1)"
    arbitrary: index ys rule: less_induct)
  case less
  show ?case
  proof (rule step)
    assume a: "0 \<le> index" "index < int (length ys)" "\<not> stopsAt D dx ys index"
    show "Q (index + direction dx) (ys[nat index := commitX D dx ys index])"
      by (rule less) (use a in \<open>auto simp: direction_def\<close>)
  qed
qed


lemma fst_walk: "fst (walk D dx index vis ys) = vis @ fst (walk D dx index [] ys)"
proof -
  have "\<forall>vis. fst (walk D dx index vis ys) = vis @ fst (walk D dx index [] ys)"
  proof (induction index ys rule: walk_induct [where D = D and dx = dx])
    case (step index ys)
    show ?case
    proof
      fix vis
      show "fst (walk D dx index vis ys) = vis @ fst (walk D dx index [] ys)"
      proof (cases "0 \<le> index \<and> index < int (length ys) \<and> \<not> stopsAt D dx ys index")
        case True
        let ?ys = "ys[nat index := commitX D dx ys index]"
        let ?i = "index + direction dx"
        from True step have ih: "\<And>v. fst (walk D dx ?i v ?ys) = v @ fst (walk D dx ?i [] ?ys)"
          by blast
        have "fst (walk D dx index vis ys) = fst (walk D dx ?i (vis @ [index]) ?ys)"
          by (subst walk_unfold) (use True in simp)
        also have "\<dots> = vis @ [index] @ fst (walk D dx ?i [] ?ys)"
          by (subst ih) simp
        also have "[index] @ fst (walk D dx ?i [] ?ys) = fst (walk D dx ?i [index] ?ys)"
          by (subst ih [of "[index]"]) simp
        also have "\<dots> = fst (walk D dx index [] ys)"
          by (subst (2) walk_unfold) (use True in simp)
        finally show ?thesis .
      next
        case False
        then show ?thesis
          by (subst (1 2) walk_unfold) auto
      qed
    qed
  qed
  then show ?thesis by blast
qed

lemma snd_walk: "snd (walk D dx index vis ys) = snd (walk D dx index [] ys)"
proof -
  have "\<forall>vis. snd (walk D dx index vis ys) = snd (walk D dx index [] ys)"
  proof (induction index ys rule: walk_induct [where D = D and dx = dx])
    case (step index ys)
    show ?case
    proof
      fix vis
      show "snd (walk D dx index vis ys) = snd (walk D dx index [] ys)"
      proof (cases "0 \<le> index \<and> index < int (length ys) \<and> \<not> stopsAt D dx ys index")
        case True
        let ?ys = "ys[nat index := commitX D dx ys index]"
        let ?i = "index + direction dx"
        from True step have ih: "\<And>v. snd (walk D dx ?i v ?ys) = snd (walk D dx ?i [] ?ys)"
          by blast
        have "snd (walk D dx index vis ys) = snd (walk D dx ?i (vis @ [index]) ?ys)"
          by (subst walk_unfold) (use True in simp)
        also have "\<dots> = snd (walk D dx ?i [index] ?ys)"
          using ih [of "vis @ [index]"] ih [of "[index]"] by simp
        also have "\<dots> = snd (walk D dx index [] ys)"
          by (subst (2) walk_unfold) (use True in simp)
        finally show ?thesis .
      next
        case False
        then show ?thesis
          by (subst (1 2) walk_unfold) auto
      qed
    qed
  qed
  then show ?thesis by blast
qed

lemma fst_walk_rec:
  "fst (walk D dx index [] ys) =
     (if 0 \<le> index \<and> index < int (length ys) then
        index # (if stopsAt D dx ys index then []
                 else fst (walk D dx (index + direction dx) []
                        (ys[nat index := commitX D dx ys index])))
      else [])"
proof (cases "0 \<le> index \<and> index < int (length ys) \<and> \<not> stopsAt D dx ys index")
  case True
  then have "fst (walk D dx index [] ys)
      = fst (walk D dx (index + direction dx) [index] (ys[nat index := commitX D dx ys index]))"
    by (subst walk_unfold) simp
  also have "\<dots> = [index] @ fst (walk D dx (index + direction dx) []
      (ys[nat index := commitX D dx ys index]))"
    by (rule fst_walk)
  finally show ?thesis using True by simp
next
  case False
  then show ?thesis by (subst walk_unfold) auto
qed

lemma snd_walk_rec:
  "snd (walk D dx index [] ys) =
     (if 0 \<le> index \<and> index < int (length ys) then
        (if stopsAt D dx ys index then ys[nat index := commitX D dx ys index]
         else snd (walk D dx (index + direction dx) []
                (ys[nat index := commitX D dx ys index])))
      else ys)"
proof (cases "0 \<le> index \<and> index < int (length ys) \<and> \<not> stopsAt D dx ys index")
  case True
  then have "snd (walk D dx index [] ys)
      = snd (walk D dx (index + direction dx) [index] (ys[nat index := commitX D dx ys index]))"
    by (subst walk_unfold) simp
  also have "\<dots> = snd (walk D dx (index + direction dx) []
      (ys[nat index := commitX D dx ys index]))"
    by (rule snd_walk)
  finally show ?thesis using True by simp
next
  case False
  then show ?thesis by (subst walk_unfold) auto
qed

lemma visited_range:
  "k \<in> set (fst (walk D dx index [] ys)) \<Longrightarrow>
     0 \<le> k \<and> k < int (length ys) \<and> (0 < dx \<longrightarrow> index \<le> k) \<and> (\<not> 0 < dx \<longrightarrow> k \<le> index)"
proof (induction index ys rule: walk_induct [where D = D and dx = dx])
  case (step index ys)
  from step.prems show ?case
    by (subst (asm) fst_walk_rec)
      (auto simp: direction_def split: if_splits dest!: step.IH)
qed

lemma commitX_update:
  assumes "0 \<le> k" "0 \<le> index" "k \<noteq> index" "k \<noteq> index + direction dx"
  shows "commitX D dx (ys[nat k := v]) index = commitX D dx ys index"
proof -
  have a: "ys[nat k := v] ! nat index = ys ! nat index"
    using assms by simp
  have b: "hasNext ys (index + direction dx) \<Longrightarrow>
      ys[nat k := v] ! nat (index + direction dx) = ys ! nat (index + direction dx)"
    using assms by (auto simp: hasNext_def nat_eq_iff)
  have c: "hasNext (ys[nat k := v]) j = hasNext ys j" for j
    by (simp add: hasNext_def)
  show ?thesis
    unfolding commitX_def Let_def c a using b by auto
qed


lemma walk_frame:
  assumes "int j \<notin> set (fst (walk D dx index [] ys))"
  shows "snd (walk D dx index [] ys) ! j = ys ! j"
  using assms
proof (induction index ys rule: walk_induct [where D = D and dx = dx])
  case (step index ys)
  show ?case
  proof (cases "0 \<le> index \<and> index < int (length ys)")
    case False
    then show ?thesis by (subst snd_walk_rec) auto
  next
    case True
    with step.prems have ne: "int j \<noteq> index"
      by (subst (asm) fst_walk_rec) simp
    then have nj: "nat index \<noteq> j" using True by auto
    show ?thesis
    proof (cases "stopsAt D dx ys index")
      case True
      with \<open>0 \<le> index \<and> index < int (length ys)\<close> nj show ?thesis
        by (subst snd_walk_rec) simp
    next
      case False
      let ?ys = "ys[nat index := commitX D dx ys index]"
      from step.prems True False
      have "int j \<notin> set (fst (walk D dx (index + direction dx) [] ?ys))"
        by (subst (asm) fst_walk_rec) simp
      with step.IH True False
      have "snd (walk D dx (index + direction dx) [] ?ys) ! j = ?ys ! j"
        by blast
      with True False nj show ?thesis
        by (subst snd_walk_rec) simp
    qed
  qed
qed

lemma walk_visited_value:
  assumes "int j \<in> set (fst (walk D dx index [] ys))"
  shows "snd (walk D dx index [] ys) ! j = commitX D dx ys (int j)"
  using assms
proof (induction index ys rule: walk_induct [where D = D and dx = dx])
  case (step index ys)
  let ?ys = "ys[nat index := commitX D dx ys index]"
  let ?i = "index + direction dx"
  from step.prems have rng: "0 \<le> index \<and> index < int (length ys)"
    by (subst (asm) fst_walk_rec) (simp split: if_splits)
  show ?case
  proof (cases "stopsAt D dx ys index")
    case True
    with step.prems rng have "int j = index"
      by (subst (asm) fst_walk_rec) simp
    with True rng show ?thesis
      by (subst snd_walk_rec) auto
  next
    case False
    from step.prems rng False
    consider "int j = index" | "int j \<in> set (fst (walk D dx ?i [] ?ys))"
      by (subst (asm) fst_walk_rec) auto
    then show ?thesis
    proof cases
      case 1
      have "int j \<notin> set (fst (walk D dx ?i [] ?ys))"
        using visited_range [of "int j" D dx ?i ?ys] 1 by (auto simp: direction_def)
      then have "snd (walk D dx ?i [] ?ys) ! j = ?ys ! j"
        by (rule walk_frame)
      with 1 rng False show ?thesis
        by (subst snd_walk_rec) auto
    next
      case 2
      with step.IH rng False
      have "snd (walk D dx ?i [] ?ys) ! j = commitX D dx ?ys (int j)"
        by blast
      moreover have "commitX D dx ?ys (int j) = commitX D dx ys (int j)"
        using visited_range [OF 2] rng
        by (intro commitX_update) (auto simp: direction_def split: if_splits)
      ultimately show ?thesis using rng False
        by (subst snd_walk_rec) simp
    qed
  qed
qed


section \<open>Abacus screen: the exact model, bead by bead\<close>






lemma onUpdate_nth:
  "onUpdate D xs thisIndex dx ! j =
     (if int j \<in> set (visitedBy D xs thisIndex dx) then commitX D dx xs (int j) else xs ! j)"
  by (simp add: onUpdate_def visitedBy_def walk_frame walk_visited_value)


lemma screenDims_380: "screenDims 380 = \<lparr>availableWidth = 300, beadWidth = 20\<rparr>"
  by (simp add: screenDims_def abacusWidth_def rodHeight_def BEADS_PER_ROD_def)

lemmas walk_eval =
  walk.simps [of "\<lparr>availableWidth = a, beadWidth = b\<rparr>" for a b] Let_def
  direction_def hasNext_def spacing_def overlapResolved_def beadUnit_def beadSpacing_def
  minX_def maxX_def


section \<open>Abacus screen: which beads a drag update visits and moves\<close>




lemma visited_start:
  "0 \<le> index \<Longrightarrow> index < int (length ys) \<Longrightarrow>
     fst (walk D dx index [] ys) \<noteq> [] \<and> hd (fst (walk D dx index [] ys)) = index"
  by (subst (1 2) fst_walk_rec) simp







text \<open>
  C5. Scenario: a rod of 10 beads of width 20 with spacing 2 at the initial positions
  0, 22, ..., 198. One drag update of bead 0 with delta +500 leaves bead 0 at exactly 0,
  for every track length; on the track of length 400 the whole rod afterwards is as
  given.
\<close>

theorem scenario_packed_rod_bead0:
  "initialPositions \<lparr>availableWidth = a, beadWidth = 20\<rparr>
     = [0, 22, 44, 66, 88, 110, 132, 154, 176, 198]
   \<and> onUpdate \<lparr>availableWidth = a, beadWidth = 20\<rparr>
        (initialPositions \<lparr>availableWidth = a, beadWidth = 20\<rparr>) 0 500 ! 0 = 0
   \<and> onUpdate \<lparr>availableWidth = 400, beadWidth = 20\<rparr>
        (initialPositions \<lparr>availableWidth = 400, beadWidth = 20\<rparr>) 0 500
       = [0, 22, 44, 66, 88, 110, 132, 154, 176, 380]"
proof -
  let ?D = "\<lparr>availableWidth = a, beadWidth = 20\<rparr>"
  let ?xs = "[0, 22, 44, 66, 88, 110, 132, 154, 176, 198 :: real]"
  have i: "initialPositions \<lparr>availableWidth = b, beadWidth = 20\<rparr> = ?xs" for b
    by (simp add: initialPositions_def BEADS_PER_ROD_def beadUnit_def beadSpacing_def upt_rec)
  have "int 0 \<in> set (visitedBy ?D ?xs 0 500)"
    using visited_start [of 0 ?xs ?D 500] hd_in_set [of "visitedBy ?D ?xs 0 500"]
    by (simp add: visitedBy_def)
  then have "onUpdate ?D ?xs 0 500 ! 0 = commitX ?D 500 ?xs 0"
    by (simp add: onUpdate_nth)
  also have "\<dots> = 0"
    by (simp add: commitX_def direction_def hasNext_def spacing_def beadUnit_def
        beadSpacing_def minX_def maxX_def Let_def)
  finally have z: "onUpdate ?D ?xs 0 500 ! 0 = 0" .
  have f: "onUpdate \<lparr>availableWidth = 400, beadWidth = 20\<rparr> ?xs 0 500
       = [0, 22, 44, 66, 88, 110, 132, 154, 176, 380]"
    by (simp add: onUpdate_def walk_eval)
  from z f show ?thesis by (simp add: i)
qed





section \<open>Double precision: properties of rounding\<close>

lemma findExp_spec:
  assumes "- 1022 \<le> e0"
  shows "- 1022 \<le> findExp x e0 \<and> x < 2 powi (findExp x e0 + 1)
         \<and> (2 powi (findExp x e0) \<le> x \<or> findExp x e0 = - 1022)"
  using assms
proof (induction x e0 rule: findExp.induct)
  case (1 x e)
  show ?case
  proof (cases "2 powi (e + 1) \<le> x")
    case True
    with 1 show ?thesis by (subst (1 2 3 4) findExp.simps) simp
  next
    case up: False
    show ?thesis
    proof (cases "x < 2 powi e \<and> - 1022 < e")
      case True
      with up 1 show ?thesis by (subst (1 2 3 4) findExp.simps) simp
    next
      case False
      with up 1 show ?thesis by (subst (1 2 3 4) findExp.simps) auto
    qed
  qed
qed

lemma pow2_mono: "a \<le> b \<Longrightarrow> (2::real) powi a \<le> 2 powi b"
  by (rule power_int_increasing) simp_all

lemma findExp_unique:
  assumes "- 1022 \<le> e" "x < 2 powi (e + 1)" "2 powi e \<le> x \<or> e = - 1022"
  shows "findExp x 0 = e"
proof -
  let ?f = "findExp x 0"
  have s: "- 1022 \<le> ?f" "x < 2 powi (?f + 1)" "2 powi ?f \<le> x \<or> ?f = - 1022"
    using findExp_spec [of 0 x] by simp_all
  have "\<not> ?f < e"
  proof
    assume l: "?f < e"
    with s(1) assms(3) have "2 powi e \<le> x" by auto
    moreover have "(2::real) powi (?f + 1) \<le> 2 powi e" using l by (intro pow2_mono) simp
    ultimately show False using s(2) by linarith
  qed
  moreover have "\<not> e < ?f"
  proof
    assume l: "e < ?f"
    with assms(1) s(3) have "2 powi ?f \<le> x" by auto
    moreover have "(2::real) powi (e + 1) \<le> 2 powi ?f" using l by (intro pow2_mono) simp
    ultimately show False using assms(2) by linarith
  qed
  ultimately show ?thesis by simp
qed

lemma roundEven_of_int [simp]: "roundEven (of_int m) = m"
  by (simp add: roundEven_def)

lemma roundEven_bounds: "\<lfloor>q\<rfloor> \<le> roundEven q" "roundEven q \<le> \<lfloor>q\<rfloor> + 1"
  by (simp_all add: roundEven_def Let_def)

lemma roundEven_mono:
  assumes "q \<le> q'"
  shows "roundEven q \<le> roundEven q'"
proof (cases "\<lfloor>q\<rfloor> = \<lfloor>q'\<rfloor>")
  case True
  with assms show ?thesis by (auto simp: roundEven_def Let_def)
next
  case False
  with assms have "\<lfloor>q\<rfloor> < \<lfloor>q'\<rfloor>" using floor_mono [of q q'] by linarith
  then have "roundEven q \<le> \<lfloor>q'\<rfloor>" using roundEven_bounds(2) [of q] by linarith
  then show ?thesis using roundEven_bounds(1) [of q'] by linarith
qed

lemma rnd64_minus: "rnd64 (- x) = - rnd64 x"
  by (simp add: rnd64_def Let_def sgn_minus)

lemma rnd64_pos:
  assumes "0 < x"
  shows "rnd64 x = of_int (roundEven (x / 2 powi (findExp x 0 - 52))) * 2 powi (findExp x 0 - 52)"
  using assms by (simp add: rnd64_def Let_def)

lemma rnd64_0 [simp]: "rnd64 0 = 0"
  by (simp add: rnd64_def)

text \<open>The scaled significand of a positive number lies below \<open>2^53\<close>, and at or above
  \<open>2^52\<close> unless the number is subnormal.\<close>

lemma scaled_bounds:
  assumes "0 < x"
  defines "e \<equiv> findExp x 0"
  shows "x / 2 powi (e - 52) < 2 ^ 53"
    and "2 powi e \<le> x \<Longrightarrow> 2 ^ 52 \<le> x / 2 powi (e - 52)"
proof -
  have u: "(2::real) powi (e - 52) > 0" by simp
  have p: "(2::real) powi (e + 1) = 2 ^ 53 * 2 powi (e - 52)"
    "(2::real) powi e = 2 ^ 52 * 2 powi (e - 52)"
    by (simp_all add: power_int_diff power_int_add)
  have "x < 2 powi (e + 1)" using findExp_spec [of 0 x] by (simp add: e_def)
  then show "x / 2 powi (e - 52) < 2 ^ 53"
    using u by (simp add: p(1) pos_divide_less_eq)
  show "2 ^ 52 \<le> x / 2 powi (e - 52)" if "2 powi e \<le> x"
    using that u by (simp add: p(2) pos_le_divide_eq)
qed

lemma rnd64_pos_bounds:
  assumes "0 < x"
  defines "e \<equiv> findExp x 0"
  shows "rnd64 x \<le> 2 powi (e + 1)"
    and "2 powi e \<le> x \<Longrightarrow> 2 powi e \<le> rnd64 x"
    and "0 \<le> rnd64 x"
proof -
  let ?u = "(2::real) powi (e - 52)"
  let ?m = "roundEven (x / ?u)"
  have r: "rnd64 x = of_int ?m * ?u" using assms by (simp add: rnd64_pos)
  have p: "(2::real) powi (e + 1) = 2 ^ 53 * ?u" "(2::real) powi e = 2 ^ 52 * ?u"
    by (simp_all add: power_int_diff power_int_add)
  have "x / ?u \<le> of_int (2 ^ 53)" using scaled_bounds(1) [OF assms(1)] by (simp add: e_def)
  then have "?m \<le> roundEven (of_int (2 ^ 53))" by (rule roundEven_mono)
  then have "?m \<le> 2 ^ 53" by (simp only: roundEven_of_int)
  then have "of_int ?m \<le> (2 ^ 53 :: real)" by (metis of_int_le_iff of_int_numeral of_int_power)
  then show "rnd64 x \<le> 2 powi (e + 1)"
    unfolding r p by (intro mult_right_mono) simp_all
  show "2 powi e \<le> rnd64 x" if "2 powi e \<le> x"
  proof -
    have "of_int (2 ^ 52) \<le> x / ?u" using scaled_bounds(2) [OF assms(1)] that by (simp add: e_def)
    then have "roundEven (of_int (2 ^ 52)) \<le> ?m" by (rule roundEven_mono)
    then have "2 ^ 52 \<le> ?m" by (simp only: roundEven_of_int)
    then have "(2 ^ 52 :: real) \<le> of_int ?m" by (metis of_int_le_iff of_int_numeral of_int_power)
    then show ?thesis unfolding r p by (intro mult_right_mono) simp_all
  qed
  have "0 \<le> x / ?u" using assms(1) by simp
  then have "\<lfloor>x / ?u\<rfloor> \<ge> 0" by simp
  then have "0 \<le> ?m" using roundEven_bounds(1) [of "x / ?u"] by linarith
  then show "0 \<le> rnd64 x" unfolding r by simp
qed

lemma rnd64_nonneg: "0 \<le> x \<Longrightarrow> 0 \<le> rnd64 x"
  using rnd64_pos_bounds(3) [of x] by (cases "x = 0") simp_all

lemma rnd64_mono_pos:
  assumes "0 < x" "x \<le> y"
  shows "rnd64 x \<le> rnd64 y"
proof -
  let ?ex = "findExp x 0" and ?ey = "findExp y 0"
  have y: "0 < y" using assms by simp
  have sx: "- 1022 \<le> ?ex" "x < 2 powi (?ex + 1)" "2 powi ?ex \<le> x \<or> ?ex = - 1022"
    using findExp_spec [of 0 x] by simp_all
  have sy: "- 1022 \<le> ?ey" "y < 2 powi (?ey + 1)" "2 powi ?ey \<le> y \<or> ?ey = - 1022"
    using findExp_spec [of 0 y] by simp_all
  have le: "?ex \<le> ?ey"
  proof (rule ccontr)
    assume "\<not> ?ex \<le> ?ey"
    then have l: "?ey < ?ex" by simp
    with sy(1) sx(3) have "2 powi ?ex \<le> x" by auto
    moreover have "(2::real) powi (?ey + 1) \<le> 2 powi ?ex" using l by (intro pow2_mono) simp
    ultimately show False using sy(2) assms(2) by linarith
  qed
  show ?thesis
  proof (cases "?ex = ?ey")
    case True
    have "x / 2 powi (?ex - 52) \<le> y / 2 powi (?ex - 52)"
      using assms(2) by (intro divide_right_mono) simp_all
    then have "roundEven (x / 2 powi (?ex - 52)) \<le> roundEven (y / 2 powi (?ex - 52))"
      by (rule roundEven_mono)
    then show ?thesis
      unfolding rnd64_pos [OF assms(1)] rnd64_pos [OF y] True [symmetric]
      by (intro mult_right_mono) simp_all
  next
    case False
    with le have l: "?ex < ?ey" by simp
    with sx(1) sy(3) have ny: "2 powi ?ey \<le> y" by auto
    have "rnd64 x \<le> 2 powi (?ex + 1)" by (rule rnd64_pos_bounds(1) [OF assms(1)])
    also have "\<dots> \<le> 2 powi ?ey" using l by (intro pow2_mono) simp
    also have "\<dots> \<le> rnd64 y" by (rule rnd64_pos_bounds(2) [OF y ny])
    finally show ?thesis .
  qed
qed

lemma rnd64_mono:
  assumes "x \<le> y"
  shows "rnd64 x \<le> rnd64 y"
proof -
  consider "0 < x" | "x \<le> 0" "0 \<le> y" | "y < 0" by linarith
  then show ?thesis
  proof cases
    case 1
    then show ?thesis using assms by (rule rnd64_mono_pos)
  next
    case 2
    have "rnd64 x \<le> 0" using rnd64_nonneg [of "- x"] 2(1) by (simp add: rnd64_minus)
    also have "0 \<le> rnd64 y" using 2(2) by (rule rnd64_nonneg)
    finally show ?thesis .
  next
    case 3
    then have "rnd64 (- y) \<le> rnd64 (- x)" using assms by (intro rnd64_mono_pos) simp_all
    then show ?thesis by (simp add: rnd64_minus)
  qed
qed

lemma rnd64_grid:
  assumes "0 < m" "m \<le> 2 ^ 53" "- 1022 \<le> e" "2 ^ 52 \<le> m \<or> e = - 1022"
  shows "rnd64 (of_int m * 2 powi (e - 52)) = of_int m * 2 powi (e - 52)"
proof -
  let ?u = "(2::real) powi (e - 52)"
  let ?r = "of_int m * ?u"
  have u: "0 < ?u" by simp
  have r: "0 < ?r" using assms(1) u by simp
  have p: "(2::real) powi (e + 1) = 2 ^ 53 * ?u" "(2::real) powi e = 2 ^ 52 * ?u"
    by (simp_all add: power_int_diff power_int_add)
  have mr: "(of_int m :: real) \<le> 2 ^ 53"
    using assms(2) by (metis of_int_le_iff of_int_numeral of_int_power)
  show ?thesis
  proof (cases "m = 2 ^ 53")
    case True
    have q: "(2::real) powi (e + 1 - 52) = 2 * ?u"
      by (simp add: power_int_diff power_int_add)
    have v: "?r = 2 powi (e + 1)" by (simp add: True p(1))
    have "findExp ?r 0 = e + 1"
    proof (rule findExp_unique)
      show "- 1022 \<le> e + 1" using assms(3) by simp
      have "(2::real) powi (e + 1) < 2 powi (e + 1 + 1)"
        by (intro power_int_strict_increasing) simp_all
      then show "?r < 2 powi (e + 1 + 1)" by (simp only: v)
      show "2 powi (e + 1) \<le> ?r \<or> e + 1 = - 1022" by (simp only: v) simp
    qed
    then have "rnd64 ?r = of_int (roundEven (?r / (2 * ?u))) * (2 * ?u)"
      using rnd64_pos [OF r] by (simp only: q)
    also have "?r / (2 * ?u) = of_int (2 ^ 52)" by (simp add: True)
    also have "of_int (roundEven (of_int (2 ^ 52))) * (2 * ?u) = ?r"
      by (simp only: roundEven_of_int) (simp add: True)
    finally show ?thesis .
  next
    case False
    with assms(2) have "m < 2 ^ 53" by simp
    then have ml: "(of_int m :: real) < 2 ^ 53"
      by (metis of_int_less_iff of_int_numeral of_int_power)
    have "findExp ?r 0 = e"
    proof (rule findExp_unique)
      show "- 1022 \<le> e" by (rule assms(3))
      show "?r < 2 powi (e + 1)" unfolding p using ml u by simp
      show "2 powi e \<le> ?r \<or> e = - 1022"
      proof (cases "2 ^ 52 \<le> m")
        case True
        then have "(2 ^ 52 :: real) \<le> of_int m"
          by (metis of_int_le_iff of_int_numeral of_int_power)
        then show ?thesis unfolding p using u by simp
      next
        case False
        with assms(4) show ?thesis by simp
      qed
    qed
    then have "rnd64 ?r = of_int (roundEven (?r / ?u)) * ?u"
      using rnd64_pos [OF r] by simp
    also have "?r / ?u = of_int m" by simp
    finally show ?thesis by (simp only: roundEven_of_int)
  qed
qed

lemma rnd64_idem [simp]: "rnd64 (rnd64 x) = rnd64 x"
proof -
  have pos: "rnd64 (rnd64 x) = rnd64 x" if x: "0 < x" for x
  proof -
    let ?e = "findExp x 0"
    let ?u = "(2::real) powi (?e - 52)"
    let ?m = "roundEven (x / ?u)"
    have s: "- 1022 \<le> ?e" "2 powi ?e \<le> x \<or> ?e = - 1022"
      using findExp_spec [of 0 x] by simp_all
    have r: "rnd64 x = of_int ?m * ?u" using x by (rule rnd64_pos)
    have "x / ?u \<le> of_int (2 ^ 53)" using scaled_bounds(1) [OF x] by simp
    then have "?m \<le> roundEven (of_int (2 ^ 53))" by (rule roundEven_mono)
    then have hi: "?m \<le> 2 ^ 53" by (simp only: roundEven_of_int)
    have "\<lfloor>x / ?u\<rfloor> \<ge> 0" using x by simp
    then have lo: "0 \<le> ?m" using roundEven_bounds(1) [of "x / ?u"] by linarith
    have n: "2 ^ 52 \<le> ?m \<or> ?e = - 1022"
    proof (cases "2 powi ?e \<le> x")
      case True
      then have "of_int (2 ^ 52) \<le> x / ?u" using scaled_bounds(2) [OF x] by simp
      then have "roundEven (of_int (2 ^ 52)) \<le> ?m" by (rule roundEven_mono)
      then show ?thesis by (simp only: roundEven_of_int) simp
    next
      case False
      with s(2) show ?thesis by simp
    qed
    show ?thesis
    proof (cases "?m = 0")
      case True
      then show ?thesis by (simp add: r)
    next
      case False
      with lo have "0 < ?m" by simp
      then show ?thesis unfolding r using hi s(1) n by (rule rnd64_grid)
    qed
  qed
  consider "0 < x" | "x = 0" | "x < 0" by linarith
  then show ?thesis
  proof cases
    case 1 then show ?thesis by (rule pos)
  next
    case 2 then show ?thesis by simp
  next
    case 3
    then have "rnd64 (rnd64 (- x)) = rnd64 (- x)" by (intro pos) simp
    then show ?thesis by (simp add: rnd64_minus)
  qed
qed


lemma isDouble_rnd64 [simp]: "isDouble (rnd64 x)"
  by (simp add: isDouble_def)

section \<open>Double precision: the loop, one iteration at a time\<close>

lemma walk64_unfold:
  "walk64 D dx index vis ys =
     (if 0 \<le> index \<and> index < int (length ys) then
        (if stopsAt64 D dx ys index
         then (vis @ [index], ys[nat index := commitX64 D dx ys index])
         else walk64 D dx (index + direction dx) (vis @ [index])
                (ys[nat index := commitX64 D dx ys index]))
      else (vis, ys))"
  by (subst walk64.simps) (simp add: Let_def commitX64_def stopsAt64_def)

lemma walk64_induct [case_names step]:
  assumes step: "\<And>index ys.
      (0 \<le> index \<Longrightarrow> index < int (length ys) \<Longrightarrow> \<not> stopsAt64 D dx ys index \<Longrightarrow>
         Q (index + direction dx) (ys[nat index := commitX64 D dx ys index]))
      \<Longrightarrow> Q index ys"
  shows "Q index ys"
proof (induction "if dx > 0 then nat (int (length ys) - index) else nat (index + 1)"
    arbitrary: index ys rule: less_induct)
  case less
  show ?case
  proof (rule step)
    assume a: "0 \<le> index" "index < int (length ys)" "\<not> stopsAt64 D dx ys index"
    show "Q (index + direction dx) (ys[nat index := commitX64 D dx ys index])"
      by (rule less) (use a in \<open>auto simp: direction_def\<close>)
  qed
qed

lemma length_walk64: "length (snd (walk64 D dx index vis ys)) = length ys"
proof -
  have "\<forall>vis. length (snd (walk64 D dx index vis ys)) = length ys"
  proof (induction index ys rule: walk64_induct [where D = D and dx = dx])
    case (step index ys)
    show ?case
      by (subst walk64_unfold) (use step in simp)
  qed
  then show ?thesis by blast
qed

lemma fst_walk64: "fst (walk64 D dx index vis ys) = vis @ fst (walk64 D dx index [] ys)"
proof -
  have "\<forall>vis. fst (walk64 D dx index vis ys) = vis @ fst (walk64 D dx index [] ys)"
  proof (induction index ys rule: walk64_induct [where D = D and dx = dx])
    case (step index ys)
    show ?case
    proof
      fix vis
      show "fst (walk64 D dx index vis ys) = vis @ fst (walk64 D dx index [] ys)"
      proof (cases "0 \<le> index \<and> index < int (length ys) \<and> \<not> stopsAt64 D dx ys index")
        case True
        let ?ys = "ys[nat index := commitX64 D dx ys index]"
        let ?i = "index + direction dx"
        from True step have ih: "\<And>v. fst (walk64 D dx ?i v ?ys) = v @ fst (walk64 D dx ?i [] ?ys)"
          by blast
        have "fst (walk64 D dx index vis ys) = fst (walk64 D dx ?i (vis @ [index]) ?ys)"
          by (subst walk64_unfold) (use True in simp)
        also have "\<dots> = vis @ [index] @ fst (walk64 D dx ?i [] ?ys)"
          by (subst ih) simp
        also have "[index] @ fst (walk64 D dx ?i [] ?ys) = fst (walk64 D dx ?i [index] ?ys)"
          by (subst ih [of "[index]"]) simp
        also have "\<dots> = fst (walk64 D dx index [] ys)"
          by (subst (2) walk64_unfold) (use True in simp)
        finally show ?thesis .
      next
        case False
        then show ?thesis
          by (subst (1 2) walk64_unfold) auto
      qed
    qed
  qed
  then show ?thesis by blast
qed

lemma snd_walk64: "snd (walk64 D dx index vis ys) = snd (walk64 D dx index [] ys)"
proof -
  have "\<forall>vis. snd (walk64 D dx index vis ys) = snd (walk64 D dx index [] ys)"
  proof (induction index ys rule: walk64_induct [where D = D and dx = dx])
    case (step index ys)
    show ?case
    proof
      fix vis
      show "snd (walk64 D dx index vis ys) = snd (walk64 D dx index [] ys)"
      proof (cases "0 \<le> index \<and> index < int (length ys) \<and> \<not> stopsAt64 D dx ys index")
        case True
        let ?ys = "ys[nat index := commitX64 D dx ys index]"
        let ?i = "index + direction dx"
        from True step have ih: "\<And>v. snd (walk64 D dx ?i v ?ys) = snd (walk64 D dx ?i [] ?ys)"
          by blast
        have "snd (walk64 D dx index vis ys) = snd (walk64 D dx ?i (vis @ [index]) ?ys)"
          by (subst walk64_unfold) (use True in simp)
        also have "\<dots> = snd (walk64 D dx ?i [index] ?ys)"
          using ih [of "vis @ [index]"] ih [of "[index]"] by simp
        also have "\<dots> = snd (walk64 D dx index [] ys)"
          by (subst (2) walk64_unfold) (use True in simp)
        finally show ?thesis .
      next
        case False
        then show ?thesis
          by (subst (1 2) walk64_unfold) auto
      qed
    qed
  qed
  then show ?thesis by blast
qed

lemma fst_walk64_rec:
  "fst (walk64 D dx index [] ys) =
     (if 0 \<le> index \<and> index < int (length ys) then
        index # (if stopsAt64 D dx ys index then []
                 else fst (walk64 D dx (index + direction dx) []
                        (ys[nat index := commitX64 D dx ys index])))
      else [])"
proof (cases "0 \<le> index \<and> index < int (length ys) \<and> \<not> stopsAt64 D dx ys index")
  case True
  then have "fst (walk64 D dx index [] ys)
      = fst (walk64 D dx (index + direction dx) [index] (ys[nat index := commitX64 D dx ys index]))"
    by (subst walk64_unfold) simp
  also have "\<dots> = [index] @ fst (walk64 D dx (index + direction dx) []
      (ys[nat index := commitX64 D dx ys index]))"
    by (rule fst_walk64)
  finally show ?thesis using True by simp
next
  case False
  then show ?thesis by (subst walk64_unfold) auto
qed

lemma snd_walk64_rec:
  "snd (walk64 D dx index [] ys) =
     (if 0 \<le> index \<and> index < int (length ys) then
        (if stopsAt64 D dx ys index then ys[nat index := commitX64 D dx ys index]
         else snd (walk64 D dx (index + direction dx) []
                (ys[nat index := commitX64 D dx ys index])))
      else ys)"
proof (cases "0 \<le> index \<and> index < int (length ys) \<and> \<not> stopsAt64 D dx ys index")
  case True
  then have "snd (walk64 D dx index [] ys)
      = snd (walk64 D dx (index + direction dx) [index] (ys[nat index := commitX64 D dx ys index]))"
    by (subst walk64_unfold) simp
  also have "\<dots> = snd (walk64 D dx (index + direction dx) []
      (ys[nat index := commitX64 D dx ys index]))"
    by (rule snd_walk64)
  finally show ?thesis using True by simp
next
  case False
  then show ?thesis by (subst walk64_unfold) auto
qed

lemma visited64_range:
  "k \<in> set (fst (walk64 D dx index [] ys)) \<Longrightarrow>
     0 \<le> k \<and> k < int (length ys) \<and> (0 < dx \<longrightarrow> index \<le> k) \<and> (\<not> 0 < dx \<longrightarrow> k \<le> index)"
proof (induction index ys rule: walk64_induct [where D = D and dx = dx])
  case (step index ys)
  from step.prems show ?case
    by (subst (asm) fst_walk64_rec)
      (auto simp: direction_def split: if_splits dest!: step.IH)
qed

lemma commitX64_update:
  assumes "0 \<le> k" "0 \<le> index" "k \<noteq> index" "k \<noteq> index + direction dx"
  shows "commitX64 D dx (ys[nat k := v]) index = commitX64 D dx ys index"
proof -
  have a: "ys[nat k := v] ! nat index = ys ! nat index"
    using assms by simp
  have b: "hasNext ys (index + direction dx) \<Longrightarrow>
      ys[nat k := v] ! nat (index + direction dx) = ys ! nat (index + direction dx)"
    using assms by (auto simp: hasNext_def nat_eq_iff)
  have c: "hasNext (ys[nat k := v]) j = hasNext ys j" for j
    by (simp add: hasNext_def)
  show ?thesis
    unfolding commitX64_def Let_def c a using b by auto
qed

lemma stopsAt64_update:
  assumes "0 \<le> k" "0 \<le> index" "k \<noteq> index" "k \<noteq> index + direction dx"
  shows "stopsAt64 D dx (ys[nat k := v]) index = stopsAt64 D dx ys index"
  using commitX64_update [OF assms] by (simp add: stopsAt64_def hasNext_def)

lemma walk64_frame:
  assumes "int j \<notin> set (fst (walk64 D dx index [] ys))"
  shows "snd (walk64 D dx index [] ys) ! j = ys ! j"
  using assms
proof (induction index ys rule: walk64_induct [where D = D and dx = dx])
  case (step index ys)
  show ?case
  proof (cases "0 \<le> index \<and> index < int (length ys)")
    case False
    then show ?thesis by (subst snd_walk64_rec) auto
  next
    case True
    with step.prems have ne: "int j \<noteq> index"
      by (subst (asm) fst_walk64_rec) simp
    then have nj: "nat index \<noteq> j" using True by auto
    show ?thesis
    proof (cases "stopsAt64 D dx ys index")
      case True
      with \<open>0 \<le> index \<and> index < int (length ys)\<close> nj show ?thesis
        by (subst snd_walk64_rec) simp
    next
      case False
      let ?ys = "ys[nat index := commitX64 D dx ys index]"
      from step.prems True False
      have "int j \<notin> set (fst (walk64 D dx (index + direction dx) [] ?ys))"
        by (subst (asm) fst_walk64_rec) simp
      with step.IH True False
      have "snd (walk64 D dx (index + direction dx) [] ?ys) ! j = ?ys ! j"
        by blast
      with True False nj show ?thesis
        by (subst snd_walk64_rec) simp
    qed
  qed
qed

lemma walk64_visited_value:
  assumes "int j \<in> set (fst (walk64 D dx index [] ys))"
  shows "snd (walk64 D dx index [] ys) ! j = commitX64 D dx ys (int j)"
  using assms
proof (induction index ys rule: walk64_induct [where D = D and dx = dx])
  case (step index ys)
  let ?ys = "ys[nat index := commitX64 D dx ys index]"
  let ?i = "index + direction dx"
  from step.prems have rng: "0 \<le> index \<and> index < int (length ys)"
    by (subst (asm) fst_walk64_rec) (simp split: if_splits)
  show ?case
  proof (cases "stopsAt64 D dx ys index")
    case True
    with step.prems rng have "int j = index"
      by (subst (asm) fst_walk64_rec) simp
    with True rng show ?thesis
      by (subst snd_walk64_rec) auto
  next
    case False
    from step.prems rng False
    consider "int j = index" | "int j \<in> set (fst (walk64 D dx ?i [] ?ys))"
      by (subst (asm) fst_walk64_rec) auto
    then show ?thesis
    proof cases
      case 1
      have "int j \<notin> set (fst (walk64 D dx ?i [] ?ys))"
        using visited64_range [of "int j" D dx ?i ?ys] 1 by (auto simp: direction_def)
      then have "snd (walk64 D dx ?i [] ?ys) ! j = ?ys ! j"
        by (rule walk64_frame)
      with 1 rng False show ?thesis
        by (subst snd_walk64_rec) auto
    next
      case 2
      with step.IH rng False
      have "snd (walk64 D dx ?i [] ?ys) ! j = commitX64 D dx ?ys (int j)"
        by blast
      moreover have "commitX64 D dx ?ys (int j) = commitX64 D dx ys (int j)"
        using visited64_range [OF 2] rng
        by (intro commitX64_update) (auto simp: direction_def split: if_splits)
      ultimately show ?thesis using rng False
        by (subst snd_walk64_rec) simp
    qed
  qed
qed

section \<open>Double precision: what a drag update preserves\<close>

lemma nonOverlap64_nth:
  "nonOverlap64 D xs \<longleftrightarrow>
     (\<forall>i. Suc i < length xs \<longrightarrow> fadd (xs ! i) (beadUnit64 D) \<le> xs ! Suc i)"
proof (induction D xs rule: nonOverlap64.induct)
  case (1 D x y xs)
  have "(\<forall>i. Suc i < length (x # y # xs) \<longrightarrow>
            fadd ((x # y # xs) ! i) (beadUnit64 D) \<le> (x # y # xs) ! Suc i)
      \<longleftrightarrow> fadd x (beadUnit64 D) \<le> y
          \<and> (\<forall>i. Suc i < length (y # xs) \<longrightarrow>
                 fadd ((y # xs) ! i) (beadUnit64 D) \<le> (y # xs) ! Suc i)"
    (is "?L \<longleftrightarrow> ?R")
  proof
    assume l: ?L
    from l [rule_format, of 0] have "fadd x (beadUnit64 D) \<le> y" by simp
    moreover have "fadd ((y # xs) ! i) (beadUnit64 D) \<le> (y # xs) ! Suc i"
      if "Suc i < length (y # xs)" for i
      using l [rule_format, of "Suc i"] that by simp
    ultimately show ?R by blast
  next
    assume r: ?R
    show ?L
    proof (intro allI impI)
      fix i assume "Suc i < length (x # y # xs)"
      then show "fadd ((x # y # xs) ! i) (beadUnit64 D) \<le> (x # y # xs) ! Suc i"
        using r by (cases i) auto
    qed
  qed
  with 1 show ?case by simp
qed simp_all

lemma inBounds64_nth:
  "inBounds64 D xs \<longleftrightarrow> (\<forall>i<length xs. 0 \<le> xs ! i \<and> xs ! i \<le> maxX64 D)"
  by (simp add: inBounds64_def list_all_length)

lemma isDouble_nth: "list_all isDouble xs \<Longrightarrow> i < length xs \<Longrightarrow> rnd64 (xs ! i) = xs ! i"
  by (simp add: list_all_length isDouble_def)

lemma rnd64_beadUnit64 [simp]: "rnd64 (beadUnit64 D) = beadUnit64 D"
  by (simp add: beadUnit64_def fadd_def)

lemma rnd64_maxX64 [simp]: "rnd64 (maxX64 D) = maxX64 D"
  by (simp add: maxX64_def fsub_def)

lemma onUpdate64_length: "length (onUpdate64 D xs thisIndex dx) = length xs"
  by (simp add: onUpdate64_def length_walk64)

lemma onUpdate64_nth:
  "onUpdate64 D xs thisIndex dx ! j =
     (if int j \<in> set (visitedBy64 D xs thisIndex dx) then commitX64 D dx xs (int j) else xs ! j)"
  by (simp add: onUpdate64_def visitedBy64_def walk64_frame walk64_visited_value)

lemma visitedBy64_range:
  "k \<in> set (visitedBy64 D xs thisIndex dx) \<Longrightarrow>
     0 \<le> k \<and> k < int (length xs) \<and> (0 < dx \<longrightarrow> int thisIndex \<le> k)
       \<and> (\<not> 0 < dx \<longrightarrow> k \<le> int thisIndex)"
  unfolding visitedBy64_def by (rule visited64_range)

text \<open>The clamp of line 159 yields a double within the track.\<close>

lemma clamp64:
  assumes "0 \<le> maxX64 D"
  shows "0 \<le> max minX (min (fadd x dx) (maxX64 D))"
    and "max minX (min (fadd x dx) (maxX64 D)) \<le> maxX64 D"
    and "rnd64 (max minX (min (fadd x dx) (maxX64 D))) = max minX (min (fadd x dx) (maxX64 D))"
proof -
  let ?p = "max minX (min (fadd x dx) (maxX64 D))"
  show "0 \<le> ?p" "?p \<le> maxX64 D" using assms(1) by (simp_all add: minX_def)
  have "?p = 0 \<or> ?p = fadd x dx \<or> ?p = maxX64 D"
    by (auto simp: minX_def max_def min_def)
  then show "rnd64 ?p = ?p" by (auto simp: fadd_def)
qed

lemma commitX64_bounds:
  assumes j: "j < length xs" and no: "nonOverlap64 D xs" and b: "inBounds64 D xs"
    and d: "list_all isDouble xs"
  shows "0 \<le> commitX64 D dx xs (int j) \<and> commitX64 D dx xs (int j) \<le> maxX64 D"
proof -
  let ?u = "beadUnit64 D" and ?M = "maxX64 D"
  let ?p = "max minX (min (fadd (xs ! j) dx) ?M)"
  have xj: "0 \<le> xs ! j" "xs ! j \<le> ?M" using b j by (simp_all add: inBounds64_nth)
  then have M: "0 \<le> ?M" by simp
  note p = clamp64 [OF M, of "xs ! j" dx]
  show ?thesis
  proof (cases "0 < dx")
    case True
    then have dir: "direction dx = 1" by (simp add: direction_def)
    have n: "nat (int j + 1) = Suc j" by simp
    show ?thesis
    proof (cases "Suc j < length xs \<and> xs ! Suc j < fadd ?p ?u")
      case False
      then have "commitX64 D dx xs (int j) = ?p"
        by (auto simp: commitX64_def dir hasNext_def spacing64_def n Let_def)
      with p show ?thesis by simp
    next
      case c: True
      then have v: "commitX64 D dx xs (int j) = fsub (xs ! Suc j) ?u"
        by (auto simp: commitX64_def dir hasNext_def spacing64_def n Let_def)
      have dn: "rnd64 (xs ! Suc j) = xs ! Suc j" using d c by (simp add: isDouble_nth)
      have "\<not> ?p + ?u \<le> xs ! Suc j"
      proof
        assume "?p + ?u \<le> xs ! Suc j"
        then have "rnd64 (?p + ?u) \<le> rnd64 (xs ! Suc j)" by (rule rnd64_mono)
        with c dn show False by (simp add: fadd_def)
      qed
      then have "xs ! Suc j - ?u \<le> ?p" by simp
      then have "rnd64 (xs ! Suc j - ?u) \<le> rnd64 ?p" by (rule rnd64_mono)
      then have hi: "fsub (xs ! Suc j) ?u \<le> ?M" using p by (simp add: fsub_def)
      have f: "fadd (xs ! j) ?u \<le> xs ! Suc j" using no c by (simp add: nonOverlap64_nth)
      have "?u \<le> xs ! j + ?u" using xj by simp
      then have "rnd64 ?u \<le> rnd64 (xs ! j + ?u)" by (rule rnd64_mono)
      with f have "?u \<le> xs ! Suc j" by (simp add: fadd_def)
      then have "0 \<le> xs ! Suc j - ?u" by simp
      then have "rnd64 0 \<le> rnd64 (xs ! Suc j - ?u)" by (rule rnd64_mono)
      then have lo: "0 \<le> fsub (xs ! Suc j) ?u" by (simp add: fsub_def)
      from lo hi show ?thesis by (simp add: v)
    qed
  next
    case False
    then have dir: "direction dx = - 1" by (simp add: direction_def)
    have h: "hasNext xs (int j - 1) \<longleftrightarrow> 0 < j" using j by (auto simp: hasNext_def)
    have n: "0 < j \<Longrightarrow> nat (int j - 1) = j - 1" by simp
    show ?thesis
    proof (cases "0 < j \<and> ?p < fadd (xs ! (j - 1)) ?u")
      case False
      then have "commitX64 D dx xs (int j) = ?p"
        by (auto simp: commitX64_def dir h spacing64_def n Let_def)
      with p show ?thesis by simp
    next
      case c: True
      then have v: "commitX64 D dx xs (int j) = fadd (xs ! (j - 1)) ?u"
        by (auto simp: commitX64_def dir h spacing64_def n Let_def)
      have lo: "0 \<le> fadd (xs ! (j - 1)) ?u" using c p(1) by linarith
      have "fadd (xs ! (j - 1)) ?u \<le> xs ! j"
        using no c j nonOverlap64_nth [of D xs] by (cases j) auto
      with xj have hi: "fadd (xs ! (j - 1)) ?u \<le> ?M" by simp
      from lo hi show ?thesis by (simp add: v)
    qed
  qed
qed

lemma commitX64_zero:
  assumes j: "j < length xs" and no: "nonOverlap64 D xs" and b: "inBounds64 D xs"
    and d: "list_all isDouble xs"
  shows "commitX64 D 0 xs (int j) = xs ! j"
proof -
  let ?u = "beadUnit64 D" and ?M = "maxX64 D"
  have xj: "0 \<le> xs ! j" "xs ! j \<le> ?M" using b j by (simp_all add: inBounds64_nth)
  have dj: "rnd64 (xs ! j) = xs ! j" using d j by (rule isDouble_nth)
  have p: "max minX (min (fadd (xs ! j) 0) ?M) = xs ! j"
    using xj by (simp add: fadd_def dj minX_def)
  have dir: "direction 0 = - 1" by (simp add: direction_def)
  have h: "hasNext xs (int j - 1) \<longleftrightarrow> 0 < j" using j by (auto simp: hasNext_def)
  have n: "0 < j \<Longrightarrow> nat (int j - 1) = j - 1" by simp
  have "\<not> xs ! j < fadd (xs ! (j - 1)) ?u" if "0 < j"
    using no that j nonOverlap64_nth [of D xs] by (cases j) auto
  then show ?thesis
    by (auto simp: commitX64_def dir h spacing64_def n Let_def p)
qed

text \<open>
  C2 (amended). If the positions of a rod are doubles that lie within the track and
  satisfy the non-overlap invariant as the handler tests it (\<open>nonOverlap64\<close>:
  \<open>position[i] + beadUnit \<le> position[i+1]\<close> with the sum rounded), then after one drag
  update with any delta on any valid bead index every bead still satisfies
  \<open>0 \<le> sharedX \<le> maxX\<close>, with \<open>maxX = availableWidth - beadWidth\<close> as line 150
  computes it.
\<close>

theorem drag64_preserves_bounds:
  assumes "nonOverlap64 D rodBeads" and "inBounds64 D rodBeads"
    and "list_all isDouble rodBeads" and "thisIndex < length rodBeads"
  shows "inBounds64 D (onUpdate64 D rodBeads thisIndex dx)"
proof -
  have "0 \<le> onUpdate64 D rodBeads thisIndex dx ! j
      \<and> onUpdate64 D rodBeads thisIndex dx ! j \<le> maxX64 D" if j: "j < length rodBeads" for j
    using commitX64_bounds [OF j assms(1,2,3), of dx] assms(2) j
    by (simp add: onUpdate64_nth inBounds64_nth)
  then show ?thesis
    by (simp add: inBounds64_nth onUpdate64_length)
qed

text \<open>
  C6 (amended). A drag update with delta exactly 0 is a no-op on every rod whose
  positions are doubles that lie within the track and satisfy the non-overlap invariant
  as the handler tests it (\<open>nonOverlap64\<close>): for every valid bead index every position
  is left as it was.
\<close>

theorem zero_delta64_noop:
  assumes "nonOverlap64 D rodBeads" and "inBounds64 D rodBeads"
    and "list_all isDouble rodBeads" and "thisIndex < length rodBeads"
  shows "onUpdate64 D rodBeads thisIndex 0 = rodBeads"
proof (rule nth_equalityI)
  show "length (onUpdate64 D rodBeads thisIndex 0) = length rodBeads"
    by (rule onUpdate64_length)
next
  fix j assume "j < length (onUpdate64 D rodBeads thisIndex 0)"
  then have j: "j < length rodBeads" by (simp add: onUpdate64_length)
  show "onUpdate64 D rodBeads thisIndex 0 ! j = rodBeads ! j"
    using commitX64_zero [OF j assms(1,2,3)] by (simp add: onUpdate64_nth)
qed







lemma visited64_start:
  "0 \<le> index \<Longrightarrow> index < int (length ys) \<Longrightarrow>
     fst (walk64 D dx index [] ys) \<noteq> [] \<and> hd (fst (walk64 D dx index [] ys)) = index"
  by (subst (1 2) fst_walk64_rec) simp











section \<open>Double precision: concrete drag updates\<close>

lemmas fp_eval =
  fadd_def fsub_def fmul_def fdiv_def
  rnd64_def [of "numeral a" for a] rnd64_def [of "numeral a / numeral b" for a b]
  rnd64_def [of 1] rnd64_0 rnd64_minus
  findExp.simps roundEven_def Let_def

lemmas walk64_eval =
  walk64.simps [of "\<lparr>availableWidth = a, beadWidth = b\<rparr>" for a b]
  direction_def hasNext_def spacing64_def overlapResolved64_def minX_def

lemma sd64_375: "screenDims64 375 = \<lparr>availableWidth = 295, beadWidth = 5535674541976235 / 281474976710656\<rparr>"
  by (simp add: screenDims64_def rodHeight_def BEADS_PER_ROD_def fp_eval)

lemma bu64_375: "beadUnit64 \<lparr>availableWidth = 295, beadWidth = 5535674541976235 / 281474976710656\<rparr> = 6098624495397547 / 281474976710656"
  by (simp add: beadUnit64_def beadSpacing_def fp_eval)

lemma mx64_375: "maxX64 \<lparr>availableWidth = 295, beadWidth = 5535674541976235 / 281474976710656\<rparr> = 4843715224229205 / 17592186044416"
  by (simp add: maxX64_def fp_eval)

lemma ip64_375: "initialPositions64 \<lparr>availableWidth = 295, beadWidth = 5535674541976235 / 281474976710656\<rparr> =
  [0, 6098624495397547 / 281474976710656, 6098624495397547 / 140737488355328, 65, 6098624495397547 / 70368744177664, 3811640309623467 / 35184372088832, 130, 2668148216736427 / 17592186044416, 6098624495397547 / 35184372088832, 195]"
  by (simp add: initialPositions64_def BEADS_PER_ROD_def bu64_375 upt_rec fp_eval)

lemma sd64_301: "screenDims64 301 = \<lparr>availableWidth = 221, beadWidth = 8294129313740663 / 562949953421312\<rparr>"
  by (simp add: screenDims64_def rodHeight_def BEADS_PER_ROD_def fp_eval)

lemma bu64_301: "beadUnit64 \<lparr>availableWidth = 221, beadWidth = 8294129313740663 / 562949953421312\<rparr> = 1177503652572911 / 70368744177664"
  by (simp add: beadUnit64_def beadSpacing_def fp_eval)

lemma mx64_301: "maxX64 \<lparr>availableWidth = 221, beadWidth = 8294129313740663 / 562949953421312\<rparr> = 7257363149523081 / 35184372088832"
  by (simp add: maxX64_def fp_eval)

lemma ip64_301: "initialPositions64 \<lparr>availableWidth = 221, beadWidth = 8294129313740663 / 562949953421312\<rparr> =
  [0, 1177503652572911 / 70368744177664, 1177503652572911 / 35184372088832, 3532510957718733 / 70368744177664, 1177503652572911 / 17592186044416, 5887518262864555 / 70368744177664, 3532510957718733 / 35184372088832, 8242525568010377 / 70368744177664, 1177503652572911 / 8796093022208, 1324691609144525 / 8796093022208]"
  by (simp add: initialPositions64_def BEADS_PER_ROD_def bu64_301 upt_rec fp_eval)

lemma sd64_310: "screenDims64 310 = \<lparr>availableWidth = 230, beadWidth = 8631899285793451 / 562949953421312\<rparr>"
  by (simp add: screenDims64_def rodHeight_def BEADS_PER_ROD_def fp_eval)

lemma bu64_310: "beadUnit64 \<lparr>availableWidth = 230, beadWidth = 8631899285793451 / 562949953421312\<rparr> = 2439449798159019 / 140737488355328"
  by (simp add: beadUnit64_def beadSpacing_def fp_eval)

lemma mx64_310: "maxX64 \<lparr>availableWidth = 230, beadWidth = 8631899285793451 / 562949953421312\<rparr> = 7552911875069269 / 35184372088832"
  by (simp add: maxX64_def fp_eval)

lemma ip64_310: "initialPositions64 \<lparr>availableWidth = 230, beadWidth = 8631899285793451 / 562949953421312\<rparr> =
  [0, 2439449798159019 / 140737488355328, 2439449798159019 / 70368744177664, 7318349394477057 / 140737488355328, 2439449798159019 / 35184372088832, 1524656123849387 / 17592186044416, 7318349394477057 / 70368744177664, 4269037146778283 / 35184372088832, 2439449798159019 / 17592186044416, 5488762045857793 / 35184372088832]"
  by (simp add: initialPositions64_def BEADS_PER_ROD_def bu64_310 upt_rec fp_eval)

lemma sd64_380: "screenDims64 380 = \<lparr>availableWidth = 300, beadWidth = 20\<rparr>"
  by (simp add: screenDims64_def rodHeight_def BEADS_PER_ROD_def fp_eval)

lemma bu64_380: "beadUnit64 \<lparr>availableWidth = 300, beadWidth = 20\<rparr> = 22"
  by (simp add: beadUnit64_def beadSpacing_def fp_eval)

lemma mx64_380: "maxX64 \<lparr>availableWidth = 300, beadWidth = 20\<rparr> = 280"
  by (simp add: maxX64_def fp_eval)

lemma ip64_380: "initialPositions64 \<lparr>availableWidth = 300, beadWidth = 20\<rparr> =
  [0, 22, 44, 66, 88, 110, 132, 154, 176, 198]"
  by (simp add: initialPositions64_def BEADS_PER_ROD_def bu64_380 upt_rec fp_eval)

lemma up_375_a: "onUpdate64 \<lparr>availableWidth = 295, beadWidth = 5535674541976235 / 281474976710656\<rparr>
  [0, 6098624495397547 / 281474976710656, 6098624495397547 / 140737488355328, 65, 6098624495397547 / 70368744177664, 3811640309623467 / 35184372088832, 130, 2668148216736427 / 17592186044416, 6098624495397547 / 35184372088832, 195] 5 (10) =
  [0, 6098624495397547 / 281474976710656, 6098624495397547 / 140737488355328, 65, 6098624495397547 / 70368744177664, 7623280619246933 / 70368744177664, 4573968371548161 / 35184372088832, 2668148216736427 / 17592186044416, 6098624495397547 / 35184372088832, 205]"
  by (simp add: onUpdate64_def walk64_eval bu64_375 mx64_375 fp_eval)

lemma up_301_a: "onUpdate64 \<lparr>availableWidth = 221, beadWidth = 8294129313740663 / 562949953421312\<rparr>
  [0, 1177503652572911 / 70368744177664, 1177503652572911 / 35184372088832, 3532510957718733 / 70368744177664, 1177503652572911 / 17592186044416, 5887518262864555 / 70368744177664, 3532510957718733 / 35184372088832, 8242525568010377 / 70368744177664, 1177503652572911 / 8796093022208, 1324691609144525 / 8796093022208] 9 (500) =
  [0, 1177503652572911 / 70368744177664, 1177503652572911 / 35184372088832, 3532510957718733 / 70368744177664, 1177503652572911 / 17592186044416, 5887518262864555 / 70368744177664, 3532510957718733 / 35184372088832, 8242525568010377 / 70368744177664, 1177503652572911 / 8796093022208, 7257363149523081 / 35184372088832]"
  by (simp add: onUpdate64_def walk64_eval bu64_301 mx64_301 fp_eval)

lemma up_301_b: "onUpdate64 \<lparr>availableWidth = 221, beadWidth = 8294129313740663 / 562949953421312\<rparr>
  [0, 1177503652572911 / 70368744177664, 1177503652572911 / 35184372088832, 3532510957718733 / 70368744177664, 1177503652572911 / 17592186044416, 5887518262864555 / 70368744177664, 3532510957718733 / 35184372088832, 8242525568010377 / 70368744177664, 1177503652572911 / 8796093022208, 7257363149523081 / 35184372088832] 8 (500) =
  [0, 1177503652572911 / 70368744177664, 1177503652572911 / 35184372088832, 3532510957718733 / 70368744177664, 1177503652572911 / 17592186044416, 5887518262864555 / 70368744177664, 3532510957718733 / 35184372088832, 8242525568010377 / 70368744177664, 3334305661618313 / 17592186044416, 7257363149523081 / 35184372088832]"
  by (simp add: onUpdate64_def walk64_eval bu64_301 mx64_301 fp_eval)

lemma up_301_c: "onUpdate64 \<lparr>availableWidth = 221, beadWidth = 8294129313740663 / 562949953421312\<rparr>
  [0, 1177503652572911 / 70368744177664, 1177503652572911 / 35184372088832, 3532510957718733 / 70368744177664, 1177503652572911 / 17592186044416, 5887518262864555 / 70368744177664, 3532510957718733 / 35184372088832, 8242525568010377 / 70368744177664, 3334305661618313 / 17592186044416, 7257363149523081 / 35184372088832] 9 (- 1) =
  [0, 1177503652572911 / 70368744177664, 1177503652572911 / 35184372088832, 3532510957718733 / 70368744177664, 1177503652572911 / 17592186044416, 5887518262864555 / 70368744177664, 3532510957718733 / 35184372088832, 8242525568010377 / 70368744177664, 3316713475573897 / 17592186044416, 3628681574761541 / 17592186044416]"
  by (simp add: onUpdate64_def walk64_eval bu64_301 mx64_301 fp_eval)

lemma up_301_z: "onUpdate64 \<lparr>availableWidth = 221, beadWidth = 8294129313740663 / 562949953421312\<rparr>
  [8294129313740663 / 562949953421312, 8857079267161975 / 281474976710656, 60, 80, 100, 120, 140, 160, 180, 200] 1 (0) =
  [8294129313740663 / 562949953421312, 1107134908395247 / 35184372088832, 60, 80, 100, 120, 140, 160, 180, 200]"
  by (simp add: onUpdate64_def walk64_eval bu64_301 mx64_301 fp_eval)

lemma up_310_z: "onUpdate64 \<lparr>availableWidth = 230, beadWidth = 8631899285793451 / 562949953421312\<rparr>
  [0, 2439449798159019 / 140737488355328, 2439449798159019 / 70368744177664, 7318349394477057 / 140737488355328, 2439449798159019 / 35184372088832, 1524656123849387 / 17592186044416, 7318349394477057 / 70368744177664, 4269037146778283 / 35184372088832, 2439449798159019 / 17592186044416, 5488762045857793 / 35184372088832] 7 (0) =
  [0, 2439449798159019 / 140737488355328, 2439449798159019 / 70368744177664, 7318349394477057 / 140737488355328, 2439449798159019 / 35184372088832, 1524656123849387 / 17592186044416, 3659174697238529 / 35184372088832, 4269037146778283 / 35184372088832, 2439449798159019 / 17592186044416, 5488762045857793 / 35184372088832]"
  by (simp add: onUpdate64_def walk64_eval bu64_310 mx64_310 fp_eval)




lemmas inv64_eval = inBounds64_def isDouble_def beadSpacing_def fp_eval

text \<open>In the window 380 wide every constant and position is a whole number, and the two
  models have the same layout and the same mounted rod; the scenario of a rod of beads
  20 wide on a track 400 long has the same outcome in double precision.\<close>

lemma layout380_same: "screenDims64 380 = screenDims 380"
  by (simp add: sd64_380 screenDims_380)

lemma mounted380_same: "initialPositions64 D380 = initialPositions (screenDims 380)"
  unfolding sd64_380 ip64_380 screenDims_380
  by (simp add: initialPositions_def BEADS_PER_ROD_def beadUnit_def beadSpacing_def upt_rec)

lemma scenario64:
  "onUpdate64 \<lparr>availableWidth = 400, beadWidth = 20\<rparr>
     (initialPositions64 \<lparr>availableWidth = 400, beadWidth = 20\<rparr>) 0 500
   = [0, 22, 44, 66, 88, 110, 132, 154, 176, 380]"
proof -
  have u: "beadUnit64 \<lparr>availableWidth = 400, beadWidth = 20\<rparr> = 22"
    by (simp add: beadUnit64_def beadSpacing_def fp_eval)
  have m: "maxX64 \<lparr>availableWidth = 400, beadWidth = 20\<rparr> = 380"
    by (simp add: maxX64_def fp_eval)
  have i: "initialPositions64 \<lparr>availableWidth = 400, beadWidth = 20\<rparr>
      = [0, 22, 44, 66, 88, 110, 132, 154, 176, 198]"
    by (simp add: initialPositions64_def BEADS_PER_ROD_def u upt_rec fp_eval)
  show ?thesis
    unfolding i by (simp add: onUpdate64_def walk64_eval u m fp_eval)
qed


text \<open>
  C2 as stated fails when the non-overlap invariant is evaluated as it is written,
  \<open>(position[i] + beadWidth) + spacing \<le> position[i+1]\<close> in double precision: in the
  window 301 wide, after bead 9 and then bead 8 were dragged by +500, that invariant and
  the bounds hold, and dragging bead 9 by -1 stores \<open>206.2666666666667\<close> for bead 9,
  above \<open>maxX = 206.26666666666668\<close>.
\<close>

theorem drag64_leaves_track_counterexample:
  "nonOverlapAsWritten D301 rod301b \<and> inBounds64 D301 rod301b \<and> list_all isDouble rod301b
   \<and> \<not> inBounds64 D301 (onUpdate64 D301 rod301b 9 (- 1))
   \<and> maxX64 D301 < onUpdate64 D301 rod301b 9 (- 1) ! 9"
proof -
  have a: "nonOverlapAsWritten D301 rod301b" "inBounds64 D301 rod301b" "list_all isDouble rod301b"
    unfolding sd64_301 ip64_301 up_301_a up_301_b by (simp_all add: mx64_301 inv64_eval)
  have b: "\<not> inBounds64 D301 (onUpdate64 D301 rod301b 9 (- 1))"
    "maxX64 D301 < onUpdate64 D301 rod301b 9 (- 1) ! 9"
    unfolding sd64_301 ip64_301 up_301_a up_301_b up_301_c by (simp_all add: mx64_301 inv64_eval)
  from a b show ?thesis by (simp only: simp_thms)
qed

text \<open>
  C6 as stated fails. In the window 310 wide the mounted rod satisfies the non-overlap
  invariant as written (evaluated in double precision) and the bounds, and a zero delta
  on bead 7 moves bead 6 from \<open>104.00000000000001\<close> to \<open>104.00000000000003\<close>. In the
  window 301 wide the rod \<open>rodTie\<close> satisfies the invariant as written and also as a
  comparison of real numbers, and a zero delta on bead 1 moves bead 1 from
  \<open>31.466666666666665\<close> to \<open>31.46666666666667\<close>.
\<close>

theorem zero_delta64_moves_bead_counterexample:
  "nonOverlapAsWritten D310 rod310 \<and> inBounds64 D310 rod310 \<and> list_all isDouble rod310
   \<and> onUpdate64 D310 rod310 7 0 ! 6 \<noteq> rod310 ! 6
   \<and> nonOverlap D301 rodTie \<and> nonOverlapAsWritten D301 rodTie
   \<and> inBounds64 D301 rodTie \<and> list_all isDouble rodTie
   \<and> onUpdate64 D301 rodTie 1 0 ! 1 \<noteq> rodTie ! 1"
proof -
  have a: "nonOverlapAsWritten D310 rod310" "inBounds64 D310 rod310" "list_all isDouble rod310"
    unfolding sd64_310 ip64_310 by (simp_all add: mx64_310 inv64_eval)
  have b: "onUpdate64 D310 rod310 7 0 ! 6 \<noteq> rod310 ! 6"
    unfolding sd64_310 ip64_310 up_310_z by simp
  have t: "rodTie = [8294129313740663 / 562949953421312, 8857079267161975 / 281474976710656,
      60, 80, 100, 120, 140, 160, 180, 200]"
    unfolding sd64_301 by simp
  have c: "nonOverlap D301 rodTie" "nonOverlapAsWritten D301 rodTie"
    "inBounds64 D301 rodTie" "list_all isDouble rodTie"
    unfolding t unfolding sd64_301 by (simp_all add: mx64_301 inv64_eval)
  have d: "onUpdate64 D301 rodTie 1 0 ! 1 \<noteq> rodTie ! 1"
    unfolding t unfolding sd64_301 up_301_z by simp
  from a b c d show ?thesis by (simp only: simp_thms)
qed



theorem drag64_preserves_bounds_witness:
  "nonOverlap64 D375 rod375 \<and> inBounds64 D375 rod375 \<and> list_all isDouble rod375
   \<and> (5::nat) < length rod375
   \<and> onUpdate64 D375 rod375 5 10 ! 5 \<noteq> rod375 ! 5
   \<and> inBounds64 D375 (onUpdate64 D375 rod375 5 10)"
proof -
  have a: "nonOverlap64 D375 rod375" "inBounds64 D375 rod375" "list_all isDouble rod375"
    unfolding sd64_375 ip64_375 by (simp_all add: bu64_375 mx64_375 inv64_eval)
  have l: "(5::nat) < length rod375" unfolding sd64_375 ip64_375 by simp
  have v: "onUpdate64 D375 rod375 5 10 ! 5 \<noteq> rod375 ! 5"
    unfolding sd64_375 ip64_375 up_375_a by simp
  from a l v drag64_preserves_bounds [OF a l, of 10] show ?thesis
    by (simp only: simp_thms)
qed

theorem zero_delta64_noop_witness:
  "nonOverlap64 D375 rod375 \<and> inBounds64 D375 rod375 \<and> list_all isDouble rod375
   \<and> (5::nat) < length rod375
   \<and> onUpdate64 D375 rod375 5 0 = rod375"
proof -
  have a: "nonOverlap64 D375 rod375" "inBounds64 D375 rod375" "list_all isDouble rod375"
    unfolding sd64_375 ip64_375 by (simp_all add: bu64_375 mx64_375 inv64_eval)
  have l: "(5::nat) < length rod375" unfolding sd64_375 ip64_375 by simp
  from a l zero_delta64_noop [OF a l] show ?thesis
    by (simp only: simp_thms)
qed


section \<open>Double precision: beads visited, halting and the stored formula\<close>

text \<open>
  The results on which beads the loop visits, where it halts and which formula it stores
  hold word for word for the loop in double precision: they follow the control flow and
  use no property of the arithmetic.
\<close>

lemma visited64_shape:
  "\<exists>n. fst (walk64 D dx index [] ys) = map (\<lambda>k. index + direction dx * int k) [0..<n]"
proof (induction index ys rule: walk64_induct [where D = D and dx = dx])
  case (step index ys)
  let ?ys = "ys[nat index := commitX64 D dx ys index]"
  let ?i = "index + direction dx"
  show ?case
  proof (cases "0 \<le> index \<and> index < int (length ys)")
    case False
    then have "fst (walk64 D dx index [] ys) = map (\<lambda>k. index + direction dx * int k) [0..<0]"
      by (subst fst_walk64_rec) auto
    then show ?thesis by blast
  next
    case rng: True
    show ?thesis
    proof (cases "stopsAt64 D dx ys index")
      case True
      with rng have "fst (walk64 D dx index [] ys) = map (\<lambda>k. index + direction dx * int k) [0..<1]"
        by (subst fst_walk64_rec) simp
      then show ?thesis by blast
    next
      case False
      with step.IH rng obtain n where
        n: "fst (walk64 D dx ?i [] ?ys) = map (\<lambda>k. ?i + direction dx * int k) [0..<n]"
        by blast
      have "fst (walk64 D dx index [] ys) = index # fst (walk64 D dx ?i [] ?ys)"
        using rng False by (subst fst_walk64_rec) simp
      also have "\<dots> = map (\<lambda>k. index + direction dx * int k) [0..<Suc n]"
        unfolding n by (simp add: map_upt_Suc algebra_simps del: upt_Suc)
      finally show ?thesis by blast
    qed
  qed
qed

lemma visited64_distinct: "distinct (fst (walk64 D dx index [] ys))"
proof -
  obtain n where "fst (walk64 D dx index [] ys) = map (\<lambda>k. index + direction dx * int k) [0..<n]"
    using visited64_shape by blast
  moreover have "inj_on (\<lambda>k. index + direction dx * int k) (set [0..<n])"
    by (auto simp: inj_on_def direction_def)
  ultimately show ?thesis by (simp add: distinct_map)
qed

lemma visited64_length: "length (fst (walk64 D dx index [] ys)) \<le> length ys"
proof -
  let ?v = "fst (walk64 D dx index [] ys)"
  have "set ?v \<subseteq> {0..<int (length ys)}"
    using visited64_range [of _ D dx index ys] by auto
  then have "card (set ?v) \<le> card {0..<int (length ys)}"
    by (intro card_mono) simp_all
  then show ?thesis
    using distinct_card [OF visited64_distinct [of D dx index ys]] by simp
qed

lemma visited64_last_iff:
  assumes "k \<in> set (fst (walk64 D dx index [] ys))"
  shows "(k = last (fst (walk64 D dx index [] ys))) = stopsAt64 D dx ys k"
  using assms
proof (induction index ys rule: walk64_induct [where D = D and dx = dx])
  case (step index ys)
  let ?ys = "ys[nat index := commitX64 D dx ys index]"
  let ?i = "index + direction dx"
  from step.prems have rng: "0 \<le> index \<and> index < int (length ys)"
    by (subst (asm) fst_walk64_rec) (simp split: if_splits)
  show ?case
  proof (cases "stopsAt64 D dx ys index")
    case True
    with rng have "fst (walk64 D dx index [] ys) = [index]"
      by (subst fst_walk64_rec) simp
    with step.prems True show ?thesis by simp
  next
    case False
    then have "hasNext ys ?i" by (simp add: stopsAt64_def)
    then have rest: "fst (walk64 D dx ?i [] ?ys) \<noteq> []"
      using visited64_start [of ?i ?ys D dx] by (simp add: hasNext_def)
    have v: "fst (walk64 D dx index [] ys) = index # fst (walk64 D dx ?i [] ?ys)"
      using rng False by (subst fst_walk64_rec) simp
    have notin: "index \<notin> set (fst (walk64 D dx ?i [] ?ys))"
      using visited64_range [of index D dx ?i ?ys] by (auto simp: direction_def)
    show ?thesis
    proof (cases "k = index")
      case True
      have "last (fst (walk64 D dx ?i [] ?ys)) \<in> set (fst (walk64 D dx ?i [] ?ys))"
        using rest by simp
      with notin have "index \<noteq> last (fst (walk64 D dx ?i [] ?ys))" by metis
      with True False rest show ?thesis by (simp add: v)
    next
      case ne: False
      with step.prems v have k: "k \<in> set (fst (walk64 D dx ?i [] ?ys))" by simp
      with step.IH rng False
      have "(k = last (fst (walk64 D dx ?i [] ?ys))) = stopsAt64 D dx ?ys k" by blast
      also have "\<dots> = stopsAt64 D dx ys k"
        using visited64_range [OF k] rng
        by (intro stopsAt64_update) (auto simp: direction_def split: if_splits)
      finally show ?thesis using rest by (simp add: v)
    qed
  qed
qed

lemma doubles_change_only_visited_run:
  "length (onUpdate64 D rodBeads thisIndex dx) = length rodBeads
   \<and> (\<exists>n. visitedBy64 D rodBeads thisIndex dx
            = map (\<lambda>k. int thisIndex + direction dx * int k) [0..<n])
   \<and> (\<forall>j. int j \<notin> set (visitedBy64 D rodBeads thisIndex dx)
          \<longrightarrow> onUpdate64 D rodBeads thisIndex dx ! j = rodBeads ! j)
   \<and> (\<forall>j. (0 < dx \<and> j < thisIndex) \<or> (\<not> 0 < dx \<and> thisIndex < j)
          \<longrightarrow> onUpdate64 D rodBeads thisIndex dx ! j = rodBeads ! j)"
proof (intro conjI allI impI)
  show "length (onUpdate64 D rodBeads thisIndex dx) = length rodBeads"
    by (rule onUpdate64_length)
  show "\<exists>n. visitedBy64 D rodBeads thisIndex dx
            = map (\<lambda>k. int thisIndex + direction dx * int k) [0..<n]"
    unfolding visitedBy64_def by (rule visited64_shape)
next
  fix j assume "int j \<notin> set (visitedBy64 D rodBeads thisIndex dx)"
  then show "onUpdate64 D rodBeads thisIndex dx ! j = rodBeads ! j"
    by (simp add: onUpdate64_nth)
next
  fix j assume a: "(0 < dx \<and> j < thisIndex) \<or> (\<not> 0 < dx \<and> thisIndex < j)"
  have "int j \<notin> set (visitedBy64 D rodBeads thisIndex dx)"
    using visitedBy64_range [of "int j" D rodBeads thisIndex dx] a by auto
  then show "onUpdate64 D rodBeads thisIndex dx ! j = rodBeads ! j"
    by (simp add: onUpdate64_nth)
qed

lemma doubles_visits_and_halting:
  assumes "thisIndex < length rodBeads"
  shows "visitedBy64 D rodBeads thisIndex dx \<noteq> []
   \<and> hd (visitedBy64 D rodBeads thisIndex dx) = int thisIndex
   \<and> distinct (visitedBy64 D rodBeads thisIndex dx)
   \<and> length (visitedBy64 D rodBeads thisIndex dx) \<le> length rodBeads
   \<and> (\<forall>k \<in> set (visitedBy64 D rodBeads thisIndex dx). 0 \<le> k \<and> k < int (length rodBeads))
   \<and> (\<forall>k \<in> set (visitedBy64 D rodBeads thisIndex dx).
        (k = last (visitedBy64 D rodBeads thisIndex dx))
        = (\<not> hasNext rodBeads (k + direction dx)
           \<or> overlapResolved64 D dx (onUpdate64 D rodBeads thisIndex dx ! nat k)))"
proof (intro conjI ballI)
  show "visitedBy64 D rodBeads thisIndex dx \<noteq> []"
    and "hd (visitedBy64 D rodBeads thisIndex dx) = int thisIndex"
    using visited64_start [of "int thisIndex" rodBeads D dx] assms
    by (simp_all add: visitedBy64_def)
  show "distinct (visitedBy64 D rodBeads thisIndex dx)"
    unfolding visitedBy64_def by (rule visited64_distinct)
  show "length (visitedBy64 D rodBeads thisIndex dx) \<le> length rodBeads"
    unfolding visitedBy64_def by (rule visited64_length)
next
  fix k assume "k \<in> set (visitedBy64 D rodBeads thisIndex dx)"
  then show "0 \<le> k" and "k < int (length rodBeads)"
    using visitedBy64_range [of k D rodBeads thisIndex dx] by simp_all
next
  fix k assume k: "k \<in> set (visitedBy64 D rodBeads thisIndex dx)"
  then have "0 \<le> k" using visitedBy64_range [of k D rodBeads thisIndex dx] by simp
  with k have "onUpdate64 D rodBeads thisIndex dx ! nat k = commitX64 D dx rodBeads k"
    by (simp add: onUpdate64_nth)
  moreover have "(k = last (visitedBy64 D rodBeads thisIndex dx)) = stopsAt64 D dx rodBeads k"
    using k unfolding visitedBy64_def by (rule visited64_last_iff)
  ultimately show "(k = last (visitedBy64 D rodBeads thisIndex dx))
        = (\<not> hasNext rodBeads (k + direction dx)
           \<or> overlapResolved64 D dx (onUpdate64 D rodBeads thisIndex dx ! nat k))"
    by (simp add: stopsAt64_def)
qed

lemma doubles_visited_bead_stored_value:
  "onUpdate64 D rodBeads thisIndex dx ! j =
     (if int j \<in> set (visitedBy64 D rodBeads thisIndex dx) then
        (let nextIndex = int j + direction dx;
             proposedX = max minX (min (fadd (rodBeads ! j) dx) (maxX64 D))
         in if hasNext rodBeads nextIndex \<and> spacing64 D dx proposedX (rodBeads ! nat nextIndex)
            then (if direction dx > 0 then fsub (rodBeads ! nat nextIndex) (beadUnit64 D)
                  else fadd (rodBeads ! nat nextIndex) (beadUnit64 D))
            else proposedX)
      else rodBeads ! j)"
  by (simp add: onUpdate64_nth commitX64_def)


lemma doubles_walk_goes_on_without_contact:
  "visitedBy64 D380 [0, 22, 44, 66, 88, 110, 132, 154, 200, 250] 7 5 = [7, 8, 9]
   \<and> onUpdate64 D380 [0, 22, 44, 66, 88, 110, 132, 154, 200, 250] 7 5
       = [0, 22, 44, 66, 88, 110, 132, 159, 205, 255]"
  unfolding sd64_380
  by (simp add: visitedBy64_def onUpdate64_def walk64_eval bu64_380 mx64_380 fp_eval)

text \<open>
  In a window 400 wide the rod as mounted already fails the handler's own test between
  beads 6 and 7 (\<open>7 * beadUnit\<close> rounds down), and a zero delta then moves bead 7; the
  rod does not satisfy the hypothesis of the zero-delta result.
\<close>

lemma mounted400_overlaps:
  "\<not> nonOverlap64 (screenDims64 400) (initialPositions64 (screenDims64 400))
   \<and> onUpdate64 (screenDims64 400) (initialPositions64 (screenDims64 400)) 9 0 ! 7
       \<noteq> initialPositions64 (screenDims64 400) ! 7"
proof -
  have d: "screenDims64 400 = \<lparr>availableWidth = 320, beadWidth = 6004799503160661 / 281474976710656\<rparr>"
    by (simp add: screenDims64_def rodHeight_def BEADS_PER_ROD_def fp_eval)
  have u: "beadUnit64 \<lparr>availableWidth = 320, beadWidth = 6004799503160661 / 281474976710656\<rparr>
      = 6567749456581973 / 281474976710656"
    by (simp add: beadUnit64_def beadSpacing_def fp_eval)
  have m: "maxX64 \<lparr>availableWidth = 320, beadWidth = 6004799503160661 / 281474976710656\<rparr>
      = 5254199565265579 / 17592186044416"
    by (simp add: maxX64_def fp_eval)
  have i: "initialPositions64 \<lparr>availableWidth = 320, beadWidth = 6004799503160661 / 281474976710656\<rparr>
      = [0, 6567749456581973 / 281474976710656, 6567749456581973 / 140737488355328, 70,
         6567749456581973 / 70368744177664, 4104843410363733 / 35184372088832, 140,
         2873390387254613 / 17592186044416, 6567749456581973 / 35184372088832, 210]"
    by (simp add: initialPositions64_def BEADS_PER_ROD_def u upt_rec fp_eval)
  have a: "\<not> nonOverlap64 (screenDims64 400) (initialPositions64 (screenDims64 400))"
    unfolding d i by (simp add: u fp_eval)
  have b: "onUpdate64 (screenDims64 400) (initialPositions64 (screenDims64 400)) 9 0 ! 7
       \<noteq> initialPositions64 (screenDims64 400) ! 7"
    unfolding d i by (simp add: onUpdate64_def walk64_eval u m fp_eval)
  from a b show ?thesis by simp
qed

section \<open>Tally screen: proofs\<close>

lemma length_mapIndexed: "length (mapIndexed f xs) = length xs"
  by (simp add: mapIndexed_def)

lemma nth_mapIndexed: "i < length xs \<Longrightarrow> mapIndexed f xs ! i = f (xs ! i) i"
  by (simp add: mapIndexed_def nth_enumerate_eq)

lemma mapIndexed_eq_self:
  assumes "\<And>i. i < length xs \<Longrightarrow> f (xs ! i) i = xs ! i"
  shows "mapIndexed f xs = xs"
  using assms by (intro nth_equalityI) (simp_all add: length_mapIndexed nth_mapIndexed)

lemma mapIndexed_mapIndexed:
  "mapIndexed g (mapIndexed f xs) = mapIndexed (\<lambda>x i. g (f x i) i) xs"
  by (intro nth_equalityI) (simp_all add: length_mapIndexed nth_mapIndexed)

lemma list_all_mapIndexed:
  assumes "list_all P xs" and "\<And>x i. P x \<Longrightarrow> P (f x i)"
  shows "list_all P (mapIndexed f xs)"
  using assms
  by (auto simp: list_all_length length_mapIndexed nth_mapIndexed)

text \<open>
  C9. In the tally screen the counters of every player satisfy
  \<open>total = correct + tryAgain\<close> in the initial state, and \<open>handleCorrect\<close>,
  \<open>handleTryAgain\<close>, \<open>handleUndo\<close> and \<open>handleReset\<close> each preserve this for every
  player.
\<close>

theorem tally_total_invariant:
  "tallyInv initialState
   \<and> (tallyInv s \<longrightarrow> tallyInv (handleCorrect index now s))
   \<and> (tallyInv s \<longrightarrow> tallyInv (handleTryAgain index now s))
   \<and> (tallyInv s \<longrightarrow> tallyInv (handleUndo s))
   \<and> tallyInv (handleReset s)"
proof (intro conjI impI)
  show "tallyInv initialState"
    by (simp add: tallyInv_def initialState_def initialTallyData_def)
next
  assume "tallyInv s"
  then show "tallyInv (handleCorrect index now s)"
    unfolding tallyInv_def handleCorrect_def
    by (auto intro!: list_all_mapIndexed)
next
  assume "tallyInv s"
  then show "tallyInv (handleTryAgain index now s)"
    unfolding tallyInv_def handleTryAgain_def
    by (auto intro!: list_all_mapIndexed)
next
  assume "tallyInv s"
  then show "tallyInv (handleUndo s)"
    unfolding tallyInv_def handleUndo_def Let_def
    by (auto intro!: list_all_mapIndexed split: ActionType.splits)
next
  show "tallyInv (handleReset s)"
    by (simp add: tallyInv_def handleReset_def list_all_iff)
qed

text \<open>
  C10. Undo reverses the last scoring action: \<open>handleCorrect\<close> (or \<open>handleTryAgain\<close>)
  followed by \<open>handleUndo\<close> gives back the state before the action, players and
  action history alike; \<open>handleUndo\<close> on an empty action history changes nothing.
\<close>

theorem undo_reverses_last_action:
  "handleUndo (handleCorrect index now s) = s
   \<and> handleUndo (handleTryAgain index now s) = s
   \<and> (actionHistory s = [] \<longrightarrow> handleUndo s = s)"
proof (intro conjI impI)
  show "handleUndo (handleCorrect index now s) = s"
    by (simp add: handleUndo_def handleCorrect_def mapIndexed_mapIndexed mapIndexed_eq_self)
next
  show "handleUndo (handleTryAgain index now s) = s"
    by (simp add: handleUndo_def handleTryAgain_def mapIndexed_mapIndexed mapIndexed_eq_self)
next
  assume "actionHistory s = []"
  then show "handleUndo s = s"
    by (simp add: handleUndo_def)
qed

theorem tally_total_invariant_witness:
  "tallyInv initialState
   \<and> tallyInv (handleCorrect 0 1000 initialState)
   \<and> tallyInv (handleTryAgain 1 1000 initialState)
   \<and> tallyInv (handleUndo (handleCorrect 0 1000 initialState))
   \<and> players (handleCorrect 0 1000 initialState) ! 0
       = \<lparr>name = ''Player 1'', correct = 1, tryAgain = 0, total = 1\<rparr>"
proof -
  have inv0: "tallyInv initialState"
    using tally_total_invariant [of initialState 0 1000] by simp
  have inv1: "tallyInv (handleCorrect 0 1000 initialState)"
    using tally_total_invariant [of initialState 0 1000] inv0 by simp
  have inv2: "tallyInv (handleTryAgain 1 1000 initialState)"
    using tally_total_invariant [of initialState 1 1000] inv0 by simp
  have inv3: "tallyInv (handleUndo (handleCorrect 0 1000 initialState))"
    using tally_total_invariant [of "handleCorrect 0 1000 initialState" 0 1000] inv1 by simp
  have val: "players (handleCorrect 0 1000 initialState) ! 0
       = \<lparr>name = ''Player 1'', correct = 1, tryAgain = 0, total = 1\<rparr>"
    by (simp add: handleCorrect_def initialState_def initialTallyData_def mapIndexed_def)
  from inv0 inv1 inv2 inv3 val show ?thesis by simp
qed

theorem undo_reverses_last_action_witness:
  "actionHistory initialState = []
   \<and> handleUndo initialState = initialState
   \<and> handleUndo (handleCorrect 2 1000 initialState) = initialState
   \<and> total (players (handleCorrect 2 1000 initialState) ! 2) = 1"
proof -
  have e: "actionHistory initialState = []"
    by (simp add: initialState_def)
  have "total (players (handleCorrect 2 1000 initialState) ! 2) = 1"
    by (simp add: handleCorrect_def initialState_def initialTallyData_def mapIndexed_def
        enumerate_eq_zip upt_rec)
  with e undo_reverses_last_action [of 2 1000 initialState] show ?thesis by simp
qed

end

